theory Spec2Isabelle
  imports Complex_Main "HOL-Library.List_Lexorder"
begin

section \<open>Text and character classes\<close>

text \<open>
  A Python \<open>str\<close> is a sequence of Unicode code points; a code point is a natural
  number. \<open>str\<close> turns an Isabelle string literal into such a sequence.
\<close>

type_synonym pystr = "nat list"

definition str :: "string \<Rightarrow> pystr" where
  "str cs = map of_char cs"

text \<open>
  The classes \<open>\w\<close> and \<open>\s\<close> of the \<open>re\<close> module on \<open>str\<close> patterns.
  \<open>is_space\<close> lists every code point for which \<open>str.isspace\<close> holds.

  \<open>\w\<close> is \<open>str.isalnum\<close> or the underscore. Below U+0100 the word characters are
  listed. From U+0100 on they are given by the Unicode database of the interpreter, which
  is not part of the repository: it is the parameter \<open>alnum\<close> of the model, where
  \<open>alnum c\<close> says that \<open>chr(c).isalnum()\<close> holds. No whitespace character is
  alphanumeric, so the table is asked only about characters that are not whitespace.
  Every function that matches text takes the table as its first argument, and every
  theorem holds for every table.
\<close>

type_synonym ucd = "nat \<Rightarrow> bool"

definition is_space :: "nat \<Rightarrow> bool" where
  "is_space c \<longleftrightarrow>
     c = 32 \<or> (9 \<le> c \<and> c \<le> 13) \<or> (28 \<le> c \<and> c \<le> 31) \<or> c = 133 \<or> c = 160 \<or>
     c = 5760 \<or> (8192 \<le> c \<and> c \<le> 8202) \<or> c = 8232 \<or> c = 8233 \<or> c = 8239 \<or>
     c = 8287 \<or> c = 12288"

definition is_word :: "ucd \<Rightarrow> nat \<Rightarrow> bool" where
  "is_word alnum c \<longleftrightarrow>
     (97 \<le> c \<and> c \<le> 122) \<or> (65 \<le> c \<and> c \<le> 90) \<or> (48 \<le> c \<and> c \<le> 57) \<or> c = 95 \<or>
     c = 170 \<or> (178 \<le> c \<and> c \<le> 179) \<or> c = 181 \<or> (185 \<le> c \<and> c \<le> 186) \<or>
     (188 \<le> c \<and> c \<le> 190) \<or> (192 \<le> c \<and> c \<le> 214) \<or> (216 \<le> c \<and> c \<le> 246) \<or>
     (248 \<le> c \<and> c \<le> 255) \<or> (256 \<le> c \<and> \<not> is_space c \<and> alnum c)"

text \<open>
  The table that marks no code point: for closed statements about texts below U+0100,
  where the table is not consulted.
\<close>

definition no_wide :: ucd where
  "no_wide c = False"

text \<open>The bracket class \<open>[A-Za-z_]\<close>.\<close>

definition is_ident_start :: "nat \<Rightarrow> bool" where
  "is_ident_start c \<longleftrightarrow> (65 \<le> c \<and> c \<le> 90) \<or> (97 \<le> c \<and> c \<le> 122) \<or> c = 95"

datatype cclass = CWord | CSpace | CIdentStart | CNotRParen

fun in_class :: "ucd \<Rightarrow> cclass \<Rightarrow> nat \<Rightarrow> bool" where
  "in_class U CWord c = is_word U c"
| "in_class U CSpace c = is_space c"
| "in_class U CIdentStart c = is_ident_start c"
| "in_class U CNotRParen c = (c \<noteq> 41)"

section \<open>The regular expressions of the scanner\<close>

text \<open>
  The fragment of \<open>re\<close> syntax that \<open>doc_coverage.py\<close> uses: literal text, one
  character of a class, greedy \<open>*\<close> and \<open>+\<close> on a class, sequence, alternation,
  a greedy optional group, the capturing group 1, \<open>^\<close> under \<open>re.MULTILINE\<close>
  and the word boundary \<open>\b\<close>.
\<close>

datatype regex =
    Lit pystr
  | Cls cclass
  | Star cclass
  | Plus cclass
  | Seq regex regex
  | Alt regex regex
  | Opt regex
  | Grp regex
  | Bol
  | Wb

text \<open>
  A position in the subject is the character before it (\<open>None\<close> at the start of the
  text) and the text from it on. A match result is the position where the match ends and
  the text of group 1, if the group took part.
\<close>

type_synonym mres = "nat option \<times> pystr \<times> pystr option"

fun lit_from :: "pystr \<Rightarrow> nat option \<Rightarrow> pystr \<Rightarrow> mres list" where
  "lit_from [] p s = [(p, s, None)]"
| "lit_from (c # cs) p [] = []"
| "lit_from (c # cs) p (x # xs) = (if x = c then lit_from cs (Some x) xs else [])"

fun star_from :: "ucd \<Rightarrow> cclass \<Rightarrow> nat option \<Rightarrow> pystr \<Rightarrow> mres list" where
  "star_from U c p [] = [(p, [], None)]"
| "star_from U c p (x # xs) =
     (if in_class U c x then star_from U c (Some x) xs @ [(p, x # xs, None)]
      else [(p, x # xs, None)])"

fun plus_from :: "ucd \<Rightarrow> cclass \<Rightarrow> nat option \<Rightarrow> pystr \<Rightarrow> mres list" where
  "plus_from U c p [] = []"
| "plus_from U c p (x # xs) = (if in_class U c x then star_from U c (Some x) xs else [])"

definition word_before :: "ucd \<Rightarrow> nat option \<Rightarrow> bool" where
  "word_before U p = (case p of None \<Rightarrow> False | Some c \<Rightarrow> is_word U c)"

definition word_after :: "ucd \<Rightarrow> pystr \<Rightarrow> bool" where
  "word_after U s = (case s of [] \<Rightarrow> False | x # _ \<Rightarrow> is_word U x)"

text \<open>
  \<open>rmatch r p s\<close> lists every way in which \<open>r\<close> matches at the position \<open>(p, s)\<close>,
  in the order in which the backtracking matcher of \<open>re\<close> tries them: the longest
  repetition first, the left alternative first. The head of the list is the match
  that \<open>re\<close> reports at this position.
\<close>

fun rmatch :: "ucd \<Rightarrow> regex \<Rightarrow> nat option \<Rightarrow> pystr \<Rightarrow> mres list" where
  "rmatch U (Lit l) p s = lit_from l p s"
| "rmatch U (Cls c) p s =
     (case s of [] \<Rightarrow> [] | x # xs \<Rightarrow> if in_class U c x then [(Some x, xs, None)] else [])"
| "rmatch U (Star c) p s = star_from U c p s"
| "rmatch U (Plus c) p s = plus_from U c p s"
| "rmatch U (Seq a b) p s =
     concat (map (\<lambda>(p', s', g).
        map (\<lambda>(p'', s'', g'). (p'', s'', case g' of None \<Rightarrow> g | Some t \<Rightarrow> Some t))
          (rmatch U b p' s')) (rmatch U a p s))"
| "rmatch U (Alt a b) p s = rmatch U a p s @ rmatch U b p s"
| "rmatch U (Opt a) p s = rmatch U a p s @ [(p, s, None)]"
| "rmatch U (Grp a) p s =
     map (\<lambda>(p', s', g). (p', s', Some (take (length s - length s') s))) (rmatch U a p s)"
| "rmatch U Bol p s = (if p = None \<or> p = Some 10 then [(p, s, None)] else [])"
| "rmatch U Wb p s = (if word_before U p \<noteq> word_after U s then [(p, s, None)] else [])"

text \<open>
  \<open>re.search\<close>: the match at the leftmost position that has one, tried from the
  given position to the end of the text (the position after the last character
  included).
\<close>

fun search_from :: "ucd \<Rightarrow> regex \<Rightarrow> nat option \<Rightarrow> pystr \<Rightarrow> mres option" where
  "search_from U r p [] = (case rmatch U r p [] of [] \<Rightarrow> None | m # _ \<Rightarrow> Some m)"
| "search_from U r p (x # xs) =
     (case rmatch U r p (x # xs) of [] \<Rightarrow> search_from U r (Some x) xs | m # _ \<Rightarrow> Some m)"

definition re_search :: "ucd \<Rightarrow> regex \<Rightarrow> pystr \<Rightarrow> mres option" where
  "re_search U r s = search_from U r None s"

text \<open>
  \<open>pattern.finditer\<close>: the successive non-overlapping matches, left to right, each
  search resuming where the previous match ended. The result lists group 1 of each
  match. \<open>k\<close> counts the characters ahead that the previous match still covers. The
  six patterns scanned with \<open>finditer\<close> all consume at least one character, so the
  special treatment that \<open>re\<close> gives to an empty match is not modelled.
\<close>

fun finditer_from :: "ucd \<Rightarrow> regex \<Rightarrow> nat \<Rightarrow> nat option \<Rightarrow> pystr \<Rightarrow> pystr option list" where
  "finditer_from U r k p [] =
     (if 0 < k then []
      else case rmatch U r p [] of [] \<Rightarrow> [] | (_, _, g) # _ \<Rightarrow> [g])"
| "finditer_from U r k p (x # xs) =
     (if 0 < k then finditer_from U r (k - 1) (Some x) xs
      else case rmatch U r p (x # xs) of
             [] \<Rightarrow> finditer_from U r 0 (Some x) xs
           | (_, s', g) # _ \<Rightarrow> g # finditer_from U r (length xs - length s') (Some x) xs)"

definition finditer :: "ucd \<Rightarrow> regex \<Rightarrow> pystr \<Rightarrow> pystr option list" where
  "finditer U r s = finditer_from U r 0 None s"

text \<open>The names that a loop \<open>for match in ...: set.add(match.group(1))\<close> collects.\<close>

definition group1_set :: "pystr option list \<Rightarrow> pystr set" where
  "group1_set gs = Option.these (set gs)"

section \<open>Symbol extraction\<close>

definition ident_group :: regex where
  "ident_group = Grp (Seq (Cls CIdentStart) (Star CWord))"

text \<open>\<^verbatim>\<open>^(?:const|let|var)\s+([A-Za-z_]\w*)\<close> with \<open>re.MULTILINE\<close>\<close>

definition global_pattern :: regex where
  "global_pattern =
     Seq Bol (Seq (Alt (Lit (str ''const'')) (Alt (Lit (str ''let'')) (Lit (str ''var''))))
       (Seq (Plus CSpace) ident_group))"

text \<open>\<^verbatim>\<open>\bfunction\s+([A-Za-z_]\w*)\s*\(\<close>\<close>

definition function_decl_pattern :: regex where
  "function_decl_pattern =
     Seq Wb (Seq (Lit (str ''function'')) (Seq (Plus CSpace) (Seq ident_group
       (Seq (Star CSpace) (Lit (str ''(''))))))"

text \<open>\<^verbatim>\<open>\b([A-Za-z_]\w*)\s*=\s*function\b\<close>\<close>

definition function_expr_pattern :: regex where
  "function_expr_pattern =
     Seq Wb (Seq ident_group (Seq (Star CSpace) (Seq (Lit (str ''='')) (Seq (Star CSpace)
       (Seq (Lit (str ''function'')) Wb)))))"

text \<open>\<^verbatim>\<open>\b([A-Za-z_]\w*)\s*=\s*async\s*\(\<close>\<close>

definition async_pattern :: regex where
  "async_pattern =
     Seq Wb (Seq ident_group (Seq (Star CSpace) (Seq (Lit (str ''='')) (Seq (Star CSpace)
       (Seq (Lit (str ''async'')) (Seq (Star CSpace) (Lit (str ''(''))))))))"

text \<open>\<^verbatim>\<open>\b([A-Za-z_]\w*)\s*=\s*\([^)]*\)\s*=>\<close>\<close>

definition arrow_pattern :: regex where
  "arrow_pattern =
     Seq Wb (Seq ident_group (Seq (Star CSpace) (Seq (Lit (str ''='')) (Seq (Star CSpace)
       (Seq (Lit (str ''('')) (Seq (Star CNotRParen) (Seq (Lit (str '')''))
         (Seq (Star CSpace) (Lit (str ''=>''))))))))))"

text \<open>\<^verbatim>\<open>\b([A-Za-z_]\w*)\s*:\s*(?:async\s*)?\([^)]*\)\s*=>\<close>\<close>

definition method_pattern :: regex where
  "method_pattern =
     Seq Wb (Seq ident_group (Seq (Star CSpace) (Seq (Lit (str '':'')) (Seq (Star CSpace)
       (Seq (Opt (Seq (Lit (str ''async'')) (Star CSpace)))
         (Seq (Lit (str ''('')) (Seq (Star CNotRParen) (Seq (Lit (str '')''))
           (Seq (Star CSpace) (Lit (str ''=>'')))))))))))"

definition patterns :: "regex list" where
  "patterns =
     [function_decl_pattern, function_expr_pattern, async_pattern, arrow_pattern,
      method_pattern]"

definition extract_symbols :: "ucd \<Rightarrow> pystr \<Rightarrow> pystr set \<times> pystr set" where
  "extract_symbols U text =
     (let globals_set = group1_set (finditer U global_pattern text);
          functions_set = (\<Union>pattern \<in> set patterns. group1_set (finditer U pattern text))
      in (globals_set, functions_set))"

section \<open>Coverage\<close>

text \<open>
  \<open>re.escape(name)\<close> puts a backslash before every character that is special in a
  pattern, so the compiled pattern matches the characters of \<open>name\<close> themselves.
\<close>

definition re_escape :: "pystr \<Rightarrow> regex" where
  "re_escape name = Lit name"

definition is_documented :: "ucd \<Rightarrow> pystr \<Rightarrow> pystr \<Rightarrow> bool" where
  "is_documented U name doc_text =
     (if doc_text = [] then False
      else re_search U (Seq Wb (Seq (re_escape name) Wb)) doc_text \<noteq> None)"

definition compute_coverage :: "ucd \<Rightarrow> pystr list \<Rightarrow> pystr \<Rightarrow> int \<times> int" where
  "compute_coverage U names doc_text =
     (let names_set = set names in
      if names_set = {} then (0, 0)
      else (let documented =
                  (\<Sum>name \<in> Set.filter (\<lambda>name. is_documented U name doc_text) names_set. 1)
            in (documented, int (card names_set))))"

section \<open>Files\<close>

text \<open>
  A file holds bytes (numbers below 256); a directory lists its entries by name, in the
  order in which the operating system lists them. A root that does not exist is \<open>None\<close>.
\<close>

type_synonym byte = nat

datatype fs_node = File "byte list" | Dir "(pystr \<times> fs_node) list"

datatype error = UnicodeDecodeError | IsADirectoryError

datatype errors_mode = Strict | Ignore

text \<open>
  The UTF-8 codec. \<open>decode_step b bs\<close> reads the sequence that starts with the byte
  \<open>b\<close>: the code point, or \<open>None\<close> for an undecodable sequence, and the number of
  bytes of \<open>bs\<close> that belong to it. An undecodable sequence is the lead byte with the
  continuation bytes that were still valid.
\<close>

definition is_cont :: "byte \<Rightarrow> bool" where
  "is_cont c \<longleftrightarrow> 128 \<le> c \<and> c \<le> 191"

definition decode_step :: "byte \<Rightarrow> byte list \<Rightarrow> nat option \<times> nat" where
  "decode_step b bs =
     (if b < 128 then (Some b, 0)
      else if 194 \<le> b \<and> b \<le> 223 then
        (case bs of
           c1 # _ \<Rightarrow> if is_cont c1 then (Some ((b - 192) * 64 + (c1 - 128)), 1) else (None, 0)
         | [] \<Rightarrow> (None, 0))
      else if 224 \<le> b \<and> b \<le> 239 then
        (case bs of
           c1 # rest \<Rightarrow>
             if (if b = 224 then 160 else 128) \<le> c1 \<and> c1 \<le> (if b = 237 then 159 else 191) then
               (case rest of
                  c2 # _ \<Rightarrow>
                    if is_cont c2
                    then (Some ((b - 224) * 4096 + (c1 - 128) * 64 + (c2 - 128)), 2)
                    else (None, 1)
                | [] \<Rightarrow> (None, 1))
             else (None, 0)
         | [] \<Rightarrow> (None, 0))
      else if 240 \<le> b \<and> b \<le> 244 then
        (case bs of
           c1 # rest \<Rightarrow>
             if (if b = 240 then 144 else 128) \<le> c1 \<and> c1 \<le> (if b = 244 then 143 else 191) then
               (case rest of
                  c2 # rest' \<Rightarrow>
                    if is_cont c2 then
                      (case rest' of
                         c3 # _ \<Rightarrow>
                           if is_cont c3
                           then (Some ((b - 240) * 262144 + (c1 - 128) * 4096 +
                                       (c2 - 128) * 64 + (c3 - 128)), 3)
                           else (None, 2)
                       | [] \<Rightarrow> (None, 2))
                    else (None, 1)
                | [] \<Rightarrow> (None, 1))
             else (None, 0)
         | [] \<Rightarrow> (None, 0))
      else (None, 0))"

text \<open>
  \<open>bytes.decode("utf-8", errors)\<close>: under \<open>strict\<close> (the default) the first
  undecodable sequence raises; under \<open>ignore\<close> its bytes are dropped and decoding
  goes on after them.
\<close>

fun utf8_decode :: "errors_mode \<Rightarrow> byte list \<Rightarrow> error + pystr" where
  "utf8_decode mode [] = Inr []"
| "utf8_decode mode (b # bs) =
     (case decode_step b bs of
        (Some c, n) \<Rightarrow>
          (case utf8_decode mode (drop n bs) of Inl e \<Rightarrow> Inl e | Inr t \<Rightarrow> Inr (c # t))
      | (None, n) \<Rightarrow>
          (case mode of Strict \<Rightarrow> Inl UnicodeDecodeError
           | Ignore \<Rightarrow> utf8_decode mode (drop n bs)))"

text \<open>Text mode reads \<open>\r\n\<close> and a lone \<open>\r\<close> as \<open>\n\<close>.\<close>

fun universal_newlines :: "pystr \<Rightarrow> pystr" where
  "universal_newlines [] = []"
| "universal_newlines [c] = (if c = 13 then [10] else [c])"
| "universal_newlines (c # d # cs) =
     (if c = 13 \<and> d = 10 then 10 # universal_newlines cs
      else if c = 13 then 10 # universal_newlines (d # cs)
      else c # universal_newlines (d # cs))"

text \<open>\<open>path.read_text(encoding="utf-8", errors=...)\<close>\<close>

definition read_text :: "errors_mode \<Rightarrow> fs_node \<Rightarrow> error + pystr" where
  "read_text mode node =
     (case node of
        Dir _ \<Rightarrow> Inl IsADirectoryError
      | File bs \<Rightarrow>
          (case utf8_decode mode bs of Inl e \<Rightarrow> Inl e | Inr t \<Rightarrow> Inr (universal_newlines t)))"

section \<open>Source enumeration\<close>

text \<open>
  \<open>Path.suffix\<close>: the part of the name from its last dot on, unless that dot is the
  first or the last character of the name, or there is none.
\<close>

definition path_suffix :: "pystr \<Rightarrow> pystr" where
  "path_suffix name =
     (if 46 \<notin> set name then []
      else let i = length name - length (takeWhile (\<lambda>c. c \<noteq> 46) (rev name)) - 1
           in if 0 < i \<and> i < length name - 1 then drop i name else [])"

definition extensions :: "pystr set" where
  "extensions = {str ''.js'', str ''.jsx'', str ''.ts'', str ''.tsx''}"

definition ignore_dirs :: "pystr set" where
  "ignore_dirs = {str ''.git'', str ''dist'', str ''node_modules'', str ''build''}"

text \<open>
  \<open>os.walk\<close>, top down: the files of a directory first, then its subdirectories in
  turn, those named in \<open>ignore_dirs\<close> pruned. A path is the list of its components
  below the code root; the file itself comes with it, to be read. A root that does not
  exist, or is not a directory, yields nothing.
\<close>

fun walk :: "pystr list \<Rightarrow> fs_node \<Rightarrow> (pystr list \<times> fs_node) list"
  and walk_dirs :: "pystr list \<Rightarrow> (pystr \<times> fs_node) list \<Rightarrow> (pystr list \<times> fs_node) list"
where
  "walk dirpath (File bs) = []"
| "walk dirpath (Dir entries) =
     concat (map (\<lambda>(entry, node).
        case node of
          File bs \<Rightarrow> if path_suffix entry \<in> extensions then [(dirpath @ [entry], node)] else []
        | Dir _ \<Rightarrow> []) entries)
     @ walk_dirs dirpath entries"
| "walk_dirs dirpath [] = []"
| "walk_dirs dirpath ((d, node) # entries) =
     (case node of
        File bs \<Rightarrow> []
      | Dir es \<Rightarrow> if d \<notin> ignore_dirs then walk (dirpath @ [d]) node else [])
     @ walk_dirs dirpath entries"

definition collect_source_files :: "fs_node option \<Rightarrow> (pystr list \<times> fs_node) list" where
  "collect_source_files code_root =
     (case code_root of None \<Rightarrow> [] | Some node \<Rightarrow> walk [] node)"

section \<open>Documentation corpus\<close>

definition is_md_name :: "pystr \<Rightarrow> bool" where
  "is_md_name name \<longleftrightarrow> 3 \<le> length name \<and> drop (length name - 3) name = str ''.md''"

text \<open>
  \<open>doc_root.rglob("*.md")\<close>: every entry below the root, file or directory, whose
  name ends in \<open>.md\<close>; the entries of a directory before those of its subdirectories.
\<close>

fun rglob_md :: "fs_node \<Rightarrow> fs_node list"
  and rglob_md_below :: "(pystr \<times> fs_node) list \<Rightarrow> fs_node list"
where
  "rglob_md (File bs) = []"
| "rglob_md (Dir entries) =
     map snd (filter (\<lambda>(name, node). is_md_name name) entries) @ rglob_md_below entries"
| "rglob_md_below [] = []"
| "rglob_md_below ((name, node) # entries) = rglob_md node @ rglob_md_below entries"

fun read_all :: "fs_node list \<Rightarrow> error + pystr list" where
  "read_all [] = Inr []"
| "read_all (path # paths) =
     (case read_text Strict path of
        Inl e \<Rightarrow> Inl e
      | Inr t \<Rightarrow> (case read_all paths of Inl e \<Rightarrow> Inl e | Inr ts \<Rightarrow> Inr (t # ts)))"

text \<open>\<open>sep.join(parts)\<close>\<close>

fun join :: "pystr \<Rightarrow> pystr list \<Rightarrow> pystr" where
  "join sep [] = []"
| "join sep [t] = t"
| "join sep (t # u # ts) = t @ sep @ join sep (u # ts)"

definition load_docs :: "fs_node option \<Rightarrow> error + pystr" where
  "load_docs doc_root =
     (case doc_root of
        None \<Rightarrow> Inr []
      | Some top_dir \<Rightarrow>
          (case read_all (rglob_md top_dir) of
             Inl e \<Rightarrow> Inl e
           | Inr collected \<Rightarrow> Inr (join [10] collected)))"

section \<open>The report\<close>

record report =
  modules_cov :: "int \<times> int"
  globals_cov :: "int \<times> int"
  functions_cov :: "int \<times> int"
  coverage_pct :: real

text \<open>
  The loop of \<open>main\<close> over the source files. A Python set is iterated in an
  unspecified order; the model takes the names in sorted order. The quotient of the
  overall percentage is taken in the reals.
\<close>

definition qualify :: "pystr \<Rightarrow> pystr set \<Rightarrow> pystr list" where
  "qualify rel names = map (\<lambda>name. rel @ str '':'' @ name) (sorted_list_of_set names)"

fun scan_files ::
  "ucd \<Rightarrow> (pystr list \<times> fs_node) list \<Rightarrow> error + pystr list \<times> pystr list \<times> pystr list" where
  "scan_files U [] = Inr ([], [], [])"
| "scan_files U ((path, node) # paths) =
     (let rel = join (str ''/'') path in
      case read_text Ignore node of
        Inl e \<Rightarrow> Inl e
      | Inr text \<Rightarrow>
          (let (globals_set, functions_set) = extract_symbols U text in
           case scan_files U paths of
             Inl e \<Rightarrow> Inl e
           | Inr (modules, globals_names, functions_names) \<Rightarrow>
               Inr (rel # modules, qualify rel globals_set @ globals_names,
                    qualify rel functions_set @ functions_names)))"

definition main :: "ucd \<Rightarrow> fs_node option \<Rightarrow> fs_node option \<Rightarrow> error + report" where
  "main U code_root doc_root =
     (case load_docs doc_root of
        Inl e \<Rightarrow> Inl e
      | Inr doc_text \<Rightarrow>
          (case scan_files U (collect_source_files code_root) of
             Inl e \<Rightarrow> Inl e
           | Inr (modules, globals_names, functions_names) \<Rightarrow>
               (let (module_docged, module_total) = compute_coverage U modules doc_text;
                    (globals_docged, globals_total) = compute_coverage U globals_names doc_text;
                    (functions_docged, functions_total) =
                       compute_coverage U functions_names doc_text;
                    overall_total = module_total + globals_total + functions_total;
                    overall_docged = module_docged + globals_docged + functions_docged;
                    pct = (if overall_total \<noteq> 0
                           then real_of_int overall_docged / real_of_int overall_total * 100
                           else 100)
                in Inr \<lparr>modules_cov = (module_docged, module_total),
                        globals_cov = (globals_docged, globals_total),
                        functions_cov = (functions_docged, functions_total),
                        coverage_pct = pct\<rparr>)))"

section \<open>The specification's notions\<close>

text \<open>
  These definitions follow the words of the specification; the theorems below compare
  them with the functions above.

  A whole-word occurrence of \<open>name\<close> in \<open>corpus\<close>: the characters of \<open>name\<close>, as
  they are, with a word boundary on each side. There is a word boundary between two
  texts when exactly one of the two characters at the border is a word character, the
  ends of the corpus counting as non-word.
\<close>

definition word_boundary :: "ucd \<Rightarrow> pystr \<Rightarrow> pystr \<Rightarrow> bool" where
  "word_boundary U before after \<longleftrightarrow>
     (before \<noteq> [] \<and> is_word U (last before)) \<noteq> (after \<noteq> [] \<and> is_word U (hd after))"

definition whole_word_occurrence :: "ucd \<Rightarrow> pystr \<Rightarrow> pystr \<Rightarrow> bool" where
  "whole_word_occurrence U name corpus \<longleftrightarrow>
     (\<exists>pre post. corpus = pre @ name @ post \<and>
        word_boundary U pre (name @ post) \<and> word_boundary U (pre @ name) post)"

text \<open>
  The identifier alphabet of the specification: an ASCII letter or the underscore, then
  ASCII letters, digits and underscores.
\<close>

definition is_ident_char :: "nat \<Rightarrow> bool" where
  "is_ident_char c \<longleftrightarrow> is_ident_start c \<or> (48 \<le> c \<and> c \<le> 57)"

definition is_identifier :: "pystr \<Rightarrow> bool" where
  "is_identifier name \<longleftrightarrow>
     name \<noteq> [] \<and> is_ident_start (hd name) \<and> list_all is_ident_char (tl name)"

text \<open>
  The token that \<^verbatim>\<open>[A-Za-z_]\w*\<close> reads: an ASCII letter or the underscore, then
  word characters of any script.
\<close>

definition is_word_token :: "ucd \<Rightarrow> pystr \<Rightarrow> bool" where
  "is_word_token U name \<longleftrightarrow>
     name \<noteq> [] \<and> is_ident_start (hd name) \<and> list_all (is_word U) (tl name)"

text \<open>
  A line-start declaration: after the text \<open>pre\<close>, which is empty or ends a line, the
  text \<open>post\<close> begins with one of the three keywords, whitespace and the token
  \<open>name\<close>; \<open>rest\<close> is what follows the token, so it does not go on with a word
  character.
\<close>

definition decl_keywords :: "pystr set" where
  "decl_keywords = {str ''const'', str ''let'', str ''var''}"

definition line_start :: "pystr \<Rightarrow> bool" where
  "line_start pre \<longleftrightarrow> pre = [] \<or> last pre = 10"

definition declaration_at :: "ucd \<Rightarrow> pystr \<Rightarrow> pystr \<Rightarrow> pystr \<Rightarrow> pystr \<Rightarrow> bool" where
  "declaration_at U pre post name rest \<longleftrightarrow>
     line_start pre \<and>
     (\<exists>kw ws. kw \<in> decl_keywords \<and> ws \<noteq> [] \<and> list_all is_space ws \<and>
        post = kw @ ws @ name @ rest) \<and>
     is_word_token U name \<and> \<not> word_after U rest"

text \<open>
  The text \<open>pre\<close> ends with a keyword at the start of a line and whitespace after it.
\<close>

definition follows_keyword :: "pystr \<Rightarrow> bool" where
  "follows_keyword pre \<longleftrightarrow>
     (\<exists>pre' kw ws. pre = pre' @ kw @ ws \<and> line_start pre' \<and> kw \<in> decl_keywords \<and>
        ws \<noteq> [] \<and> list_all is_space ws)"

text \<open>
  \<open>keyword_run pre n\<close>: the text \<open>pre\<close> ends with \<open>n\<close> keywords in a row, each at
  the start of a line and followed by whitespace only, and with no more than \<open>n\<close>.
\<close>

inductive keyword_run :: "pystr \<Rightarrow> nat \<Rightarrow> bool" where
  none: "\<not> follows_keyword pre \<Longrightarrow> keyword_run pre 0"
| more: "keyword_run pre n \<Longrightarrow> line_start pre \<Longrightarrow> kw \<in> decl_keywords \<Longrightarrow> ws \<noteq> [] \<Longrightarrow>
         list_all is_space ws \<Longrightarrow> keyword_run (pre @ kw @ ws) (Suc n)"

text \<open>The character before the position that follows the text \<open>pre\<close>.\<close>

definition prev_char :: "nat option \<Rightarrow> pystr \<Rightarrow> nat option" where
  "prev_char p pre = (if pre = [] then p else Some (last pre))"

text \<open>
  One of the five function patterns matches at the position after \<open>pre\<close> and captures
  \<open>name\<close>.
\<close>

definition function_like_at :: "ucd \<Rightarrow> pystr \<Rightarrow> pystr \<Rightarrow> pystr \<Rightarrow> bool" where
  "function_like_at U pre post name \<longleftrightarrow>
     (\<exists>pattern \<in> set patterns. \<exists>q s' ms.
        rmatch U pattern (prev_char None pre) post = (q, s', Some name) # ms)"

text \<open>
  The text of a source file as the scanner gets it, and the names that the scan of a
  list of source files collects from these texts: the relative paths, the qualified
  globals and the qualified functions.
\<close>

definition source_text :: "fs_node \<Rightarrow> pystr" where
  "source_text node = (case read_text Ignore node of Inl e \<Rightarrow> [] | Inr t \<Rightarrow> t)"

definition decoded_names ::
  "ucd \<Rightarrow> (pystr list \<times> fs_node) list \<Rightarrow> pystr list \<times> pystr list \<times> pystr list" where
  "decoded_names U files =
     (map (\<lambda>(path, node). join (str ''/'') path) files,
      concat (map (\<lambda>(path, node).
        qualify (join (str ''/'') path) (fst (extract_symbols U (source_text node)))) files),
      concat (map (\<lambda>(path, node).
        qualify (join (str ''/'') path) (snd (extract_symbols U (source_text node)))) files))"

text \<open>
  The overall percentage: the sum of the documented counts over the sum of the totals,
  times 100, and 100 when the combined total is zero.
\<close>

definition overall_pct :: "int \<times> int \<Rightarrow> int \<times> int \<Rightarrow> int \<times> int \<Rightarrow> real" where
  "overall_pct m g f =
     (if snd m + snd g + snd f \<noteq> 0
      then real_of_int (fst m + fst g + fst f) / real_of_int (snd m + snd g + snd f) * 100
      else 100)"

text \<open>
  The scan of \<open>finditer\<close> comes to the position after \<open>pre\<close> with no earlier match
  reaching over it.
\<close>

definition scan_reaches :: "ucd \<Rightarrow> regex \<Rightarrow> pystr \<Rightarrow> pystr \<Rightarrow> bool" where
  "scan_reaches U r pre post \<longleftrightarrow>
     (\<exists>gs. finditer U r (pre @ post) = gs @ finditer_from U r 0 (prev_char None pre) post)"

text \<open>
  The captures of the first match at each position of a text, whether or not the scan
  comes to the position.
\<close>

fun captures_from :: "ucd \<Rightarrow> regex \<Rightarrow> nat option \<Rightarrow> pystr \<Rightarrow> pystr option list" where
  "captures_from U r p [] = (case rmatch U r p [] of [] \<Rightarrow> [] | (_, _, g) # _ \<Rightarrow> [g])"
| "captures_from U r p (x # xs) =
     (case rmatch U r p (x # xs) of [] \<Rightarrow> [] | (_, _, g) # _ \<Rightarrow> [g])
     @ captures_from U r (Some x) xs"

section \<open>Facts for evaluation\<close>

lemmas text_eval = str_def word_before_def word_after_def is_word_def is_space_def
  is_ident_start_def

section \<open>Source enumeration: the extension filter\<close>

lemma walk_suffix:
  "(p, n) \<in> set (walk pre node) \<Longrightarrow> p \<noteq> [] \<and> path_suffix (last p) \<in> extensions"
  "(p, n) \<in> set (walk_dirs pre es) \<Longrightarrow> p \<noteq> [] \<and> path_suffix (last p) \<in> extensions"
proof (induction pre node and pre es arbitrary: p n and p n rule: walk_walk_dirs.induct)
  case (1 dirpath bs)
  then show ?case by simp
next
  case (2 dirpath entries)
  from "2.prems" have "(p, n) \<in> set (walk_dirs dirpath entries) \<or>
      (\<exists>entry. p = dirpath @ [entry] \<and> path_suffix entry \<in> extensions)"
    by (auto split: fs_node.splits if_splits)
  with "2.IH" show ?case by auto
next
  case (3 dirpath)
  then show ?case by simp
next
  case (4 dirpath d node entries)
  from "4.prems" have "(p, n) \<in> set (walk_dirs dirpath entries) \<or>
      (\<exists>es. node = Dir es \<and> d \<notin> ignore_dirs \<and> (p, n) \<in> set (walk (dirpath @ [d]) node))"
    by (auto split: fs_node.splits if_splits)
  with "4.IH" show ?case by blast
qed

lemma suffix_upper:
  "path_suffix (str ''APP.JS'') = str ''.JS''" "path_suffix (str ''main.Ts'') = str ''.Ts''"
  by (simp_all add: path_suffix_def str_def)

lemma upper_not_ext: "str ''.JS'' \<notin> extensions" "str ''.Ts'' \<notin> extensions"
  by (simp_all add: extensions_def str_def)

text \<open>
  Claim C10. Every path that \<open>collect_source_files\<close> yields has a suffix that is one of
  \<open>.js\<close>, \<open>.jsx\<close>, \<open>.ts\<close>, \<open>.tsx\<close>, compared as strings, so with the case of the
  letters: a file named \<open>APP.JS\<close> or \<open>main.Ts\<close> is never yielded.
\<close>

theorem collect_source_files_case_sensitive:
  assumes "(p, node) \<in> set (collect_source_files code_root)"
  shows "path_suffix (last p) \<in> {str ''.js'', str ''.jsx'', str ''.ts'', str ''.tsx''} \<and>
         last p \<noteq> str ''APP.JS'' \<and> last p \<noteq> str ''main.Ts''"
proof -
  from assms have "path_suffix (last p) \<in> extensions"
    by (auto simp: collect_source_files_def split: option.splits dest: walk_suffix(1))
  then show ?thesis
    using suffix_upper upper_not_ext by (auto simp: extensions_def)
qed

theorem collect_source_files_case_sensitive_witness:
  "([str ''a.js''], File []) \<in> set (collect_source_files
      (Some (Dir [(str ''APP.JS'', File []), (str ''a.js'', File [])]))) \<and>
   path_suffix (last [str ''a.js'']) \<in> {str ''.js'', str ''.jsx'', str ''.ts'', str ''.tsx''} \<and>
   collect_source_files (Some (Dir [(str ''APP.JS'', File []), (str ''a.js'', File [])]))
     = [([str ''a.js''], File [])]"
proof -
  have c: "collect_source_files (Some (Dir [(str ''APP.JS'', File []), (str ''a.js'', File [])]))
     = [([str ''a.js''], File [])]"
    by (simp add: collect_source_files_def path_suffix_def extensions_def str_def)
  then have m: "([str ''a.js''], File []) \<in> set (collect_source_files
      (Some (Dir [(str ''APP.JS'', File []), (str ''a.js'', File [])])))" by simp
  from collect_source_files_case_sensitive [OF m] c m show ?thesis by simp
qed

section \<open>A missing documentation root\<close>

text \<open>
  Claim C7. When the documentation root does not exist, \<open>load_docs\<close> returns the empty
  string and raises nothing; \<open>is_documented\<close> is false for every name against the empty
  corpus, so no name of any coverage query against it counts as documented.
\<close>

theorem load_docs_missing_root:
  "load_docs None = Inr [] \<and> (\<forall>name. \<not> is_documented U name []) \<and>
   (\<forall>names. fst (compute_coverage U names []) = 0)"
  by (auto simp: load_docs_def is_documented_def compute_coverage_def Let_def)

section \<open>The report for a code root without source files\<close>

text \<open>
  Claim C8. For every documentation corpus that \<open>load_docs\<close> returns, when the code root
  yields no source file, the three tallies are \<open>(0, 0)\<close> and the overall percentage is
  100.
\<close>

theorem main_no_source_files:
  assumes "load_docs doc_root = Inr doc_text" and "collect_source_files code_root = []"
  shows "main U code_root doc_root =
     Inr \<lparr>modules_cov = (0, 0), globals_cov = (0, 0), functions_cov = (0, 0),
          coverage_pct = 100\<rparr>"
  using assms by (simp add: main_def compute_coverage_def)

theorem main_no_source_files_witness:
  "load_docs None = Inr [] \<and> collect_source_files None = [] \<and>
   main no_wide None None = Inr \<lparr>modules_cov = (0, 0), globals_cov = (0, 0), functions_cov = (0, 0),
          coverage_pct = 100\<rparr>"
proof -
  have a: "load_docs None = Inr []" by (simp add: load_docs_def)
  have b: "collect_source_files None = []" by (simp add: collect_source_files_def)
  from main_no_source_files [OF a b] a b show ?thesis by simp
qed

section \<open>Coverage of a list of names\<close>

lemmas doc_eval = text_eval is_documented_def re_search_def re_escape_def

text \<open>
  Claim C1. The claim asks that a qualified name be found documented as soon as its
  bare trailing token occurs in the corpus as a whole word. \<open>is_documented\<close> searches
  for the whole qualified name: on the input of the repository's own test
  \<open>test_symbol_detection_receives_bare_function_reference\<close> it returns false, where
  the test asserts true.
\<close>

theorem is_documented_bare_reference:
  "\<not> is_documented U (str ''bootstrap/local/sass-compiler.js:compileSCSS'')
       (str ''The loader calls compileSCSS before injectCSS runs.'')"
  by (simp add: doc_eval)

lemma coverage_sample:
  "is_documented U (str ''moduleA:foo'') (str ''moduleA:foo moduleA:bar cables'')"
  "\<not> is_documented U (str ''moduleA:untracked'') (str ''moduleA:foo moduleA:bar cables'')"
  "is_documented U (str ''moduleA:bar'') (str ''moduleA:foo moduleA:bar cables'')"
  "\<not> is_documented U (str ''moduleB:baz'') (str ''moduleA:foo moduleA:bar cables'')"
  by (simp_all add: doc_eval)

lemma compute_coverage_card:
  "compute_coverage U names doc_text =
     (int (card {name \<in> set names. is_documented U name doc_text}), int (card (set names)))"
  by (auto simp: compute_coverage_def Let_def)

text \<open>
  Claim C6. \<open>compute_coverage\<close> returns the number of distinct names that are
  documented and the number of distinct names; that is \<open>(0, 0)\<close> for no name, and
  repeating names changes neither count. The names \<open>moduleA:foo\<close>,
  \<open>moduleA:untracked\<close>, \<open>moduleA:bar\<close>, \<open>moduleB:baz\<close> against the corpus
  \<open>moduleA:foo moduleA:bar cables\<close> give \<open>(2, 4)\<close>.
\<close>

theorem compute_coverage_counts:
  "compute_coverage U names doc_text =
     (int (card {name \<in> set names. is_documented U name doc_text}), int (card (set names))) \<and>
   compute_coverage U [] doc_text = (0, 0) \<and>
   compute_coverage U (remdups names) doc_text = compute_coverage U names doc_text \<and>
   compute_coverage U (names @ names) doc_text = compute_coverage U names doc_text \<and>
   compute_coverage U
     [str ''moduleA:foo'', str ''moduleA:untracked'', str ''moduleA:bar'', str ''moduleB:baz'']
     (str ''moduleA:foo moduleA:bar cables'') = (2, 4)"
proof -
  let ?d = "str ''moduleA:foo moduleA:bar cables''"
  have "{name \<in> set [str ''moduleA:foo'', str ''moduleA:untracked'', str ''moduleA:bar'',
           str ''moduleB:baz'']. is_documented U name ?d} = {str ''moduleA:foo'', str ''moduleA:bar''}"
    using coverage_sample by auto
  moreover have "card {str ''moduleA:foo'', str ''moduleA:bar''} = 2"
    by (simp add: str_def)
  moreover have "card (set [str ''moduleA:foo'', str ''moduleA:untracked'', str ''moduleA:bar'',
           str ''moduleB:baz'']) = 4"
    by (simp add: str_def)
  ultimately show ?thesis
    by (simp add: compute_coverage_card)
qed

section \<open>Decoding faults\<close>

lemma utf8_ignore_total: "\<exists>t. utf8_decode Ignore bs = Inr t"
proof (induction "length bs" arbitrary: bs rule: less_induct)
  case less
  show ?case
  proof (cases bs)
    case Nil
    then show ?thesis by simp
  next
    case (Cons b bs')
    obtain r n where s: "decode_step b bs' = (r, n)" by (cases "decode_step b bs'")
    have "length (drop n bs') < length bs" using Cons by simp
    from less [OF this] obtain t where "utf8_decode Ignore (drop n bs') = Inr t" by blast
    with s Cons show ?thesis by (cases r) auto
  qed
qed

lemma utf8_strict_ignore: "utf8_decode Strict bs = Inr t \<Longrightarrow> utf8_decode Ignore bs = Inr t"
proof (induction "Strict" bs arbitrary: t rule: utf8_decode.induct)
  case 1
  then show ?case by simp
next
  case (2 b bs)
  then show ?case
    by (auto split: prod.splits option.splits sum.splits)
qed

lemma decode_step_append:
  "decode_step b bs = (Some c, n) \<Longrightarrow> n \<le> length bs \<and> decode_step b (bs @ cs) = (Some c, n)"
  by (auto simp: decode_step_def split: if_splits list.splits)

lemma utf8_strict_append:
  "utf8_decode Strict a = Inr ta \<Longrightarrow>
   utf8_decode mode (a @ cs) =
     (case utf8_decode mode cs of Inl e \<Rightarrow> Inl e | Inr t \<Rightarrow> Inr (ta @ t))"
proof (induction "length a" arbitrary: a ta rule: less_induct)
  case less
  show ?case
  proof (cases a)
    case Nil
    with less.prems show ?thesis by (simp split: sum.splits)
  next
    case (Cons b a')
    obtain r n where s: "decode_step b a' = (r, n)" by (cases "decode_step b a'")
    from less.prems Cons s obtain c where r: "r = Some c" by (cases r) auto
    from less.prems Cons s r obtain t' where
      t': "utf8_decode Strict (drop n a') = Inr t'" and ta: "ta = c # t'"
      by (auto split: sum.splits)
    from decode_step_append [OF s [unfolded r], of cs]
    have n: "n \<le> length a'" and s': "decode_step b (a' @ cs) = (Some c, n)" by simp_all
    have "length (drop n a') < length a" using Cons by simp
    from less.hyps [OF this t']
    have "utf8_decode mode (drop n a' @ cs) =
        (case utf8_decode mode cs of Inl e \<Rightarrow> Inl e | Inr t \<Rightarrow> Inr (t' @ t))" .
    with Cons s' n ta show ?thesis by (simp split: sum.splits)
  qed
qed

lemma utf8_ignore_drops:
  assumes "utf8_decode Strict a = Inr ta" and "decode_step b rest = (None, n)"
    and "utf8_decode Ignore (drop n rest) = Inr tr"
  shows "utf8_decode Ignore (a @ b # rest) = Inr (ta @ tr)"
  using utf8_strict_append [OF assms(1), of Ignore "b # rest"] assms(2,3) by simp

lemma walk_files:
  "(p, n) \<in> set (walk pre node) \<Longrightarrow> \<exists>bs. n = File bs"
  "(p, n) \<in> set (walk_dirs pre es) \<Longrightarrow> \<exists>bs. n = File bs"
proof (induction pre node and pre es arbitrary: p n and p n rule: walk_walk_dirs.induct)
  case (1 dirpath bs)
  then show ?case by simp
next
  case (2 dirpath entries)
  from "2.prems" have "(p, n) \<in> set (walk_dirs dirpath entries) \<or> (\<exists>bs. n = File bs)"
    by (auto split: fs_node.splits if_splits)
  with "2.IH" show ?case by auto
next
  case (3 dirpath)
  then show ?case by simp
next
  case (4 dirpath d node entries)
  from "4.prems" have "(p, n) \<in> set (walk_dirs dirpath entries) \<or>
      (\<exists>es. node = Dir es \<and> d \<notin> ignore_dirs \<and> (p, n) \<in> set (walk (dirpath @ [d]) node))"
    by (auto split: fs_node.splits if_splits)
  with "4.IH" show ?case by blast
qed

lemma collected_files:
  "(p, n) \<in> set (collect_source_files code_root) \<Longrightarrow> \<exists>bs. n = File bs"
  by (auto simp: collect_source_files_def split: option.splits dest: walk_files(1))

lemma read_text_ignore_total: "\<exists>t. read_text Ignore (File bs) = Inr t"
  using utf8_ignore_total [of bs] by (auto simp: read_text_def)

lemma read_text_source_text: "read_text Ignore (File bs) = Inr (source_text (File bs))"
  using read_text_ignore_total [of bs] by (auto simp: source_text_def)

lemma scan_files_decoded:
  "\<forall>(p, n) \<in> set files. \<exists>bs. n = File bs \<Longrightarrow>
   scan_files U files = Inr (decoded_names U files)"
proof (induction files)
  case Nil
  then show ?case by (simp add: decoded_names_def)
next
  case (Cons f files)
  obtain p n where f: "f = (p, n)" by (cases f)
  with Cons.prems obtain bs where n: "n = File bs" by auto
  from Cons have r: "scan_files U files = Inr (decoded_names U files)" by auto
  show ?case using f n r read_text_source_text [of bs]
    by (simp add: decoded_names_def Let_def split: prod.splits)
qed

lemma main_report:
  assumes "load_docs doc_root = Inr doc_text"
    and "scan_files U (collect_source_files code_root) = Inr (modules, gs, fs)"
  shows "main U code_root doc_root =
     Inr \<lparr>modules_cov = compute_coverage U modules doc_text,
          globals_cov = compute_coverage U gs doc_text,
          functions_cov = compute_coverage U fs doc_text,
          coverage_pct = overall_pct (compute_coverage U modules doc_text)
             (compute_coverage U gs doc_text) (compute_coverage U fs doc_text)\<rparr>"
  using assms by (simp add: main_def overall_pct_def Let_def split: prod.splits)

text \<open>
  Claim C5, as the code has it for the scanned source files. \<open>main\<close> reads every source
  file with \<open>errors="ignore"\<close>. That read always returns a text; it is the strictly
  decoded text when the bytes are valid; when the bytes \<open>a\<close> are valid and an
  undecodable sequence follows them, the text is the text of \<open>a\<close> and then the text of
  what follows the sequence, with nothing put in its place. Once the documentation
  corpus is loaded, the scan collects the names extracted from these texts, and \<open>main\<close>
  returns the report that counts them against the corpus: no source file makes it fail.
\<close>

theorem source_decode_faults_dropped:
  "(\<forall>(path, node) \<in> set (collect_source_files code_root).
      \<exists>content. node = File content \<and> read_text Ignore node = Inr (source_text node)) \<and>
   read_text Ignore (File bs) = Inr (source_text (File bs)) \<and>
   (\<forall>t. read_text Strict (File bs) = Inr t \<longrightarrow> source_text (File bs) = t) \<and>
   (\<forall>a b rest n ta tr.
      bs = a @ b # rest \<and> utf8_decode Strict a = Inr ta \<and> decode_step b rest = (None, n) \<and>
      utf8_decode Ignore (drop n rest) = Inr tr \<longrightarrow>
      source_text (File bs) = universal_newlines (ta @ tr)) \<and>
   (\<forall>doc_text. load_docs doc_root = Inr doc_text \<longrightarrow>
      (\<exists>modules gs fs.
         decoded_names U (collect_source_files code_root) = (modules, gs, fs) \<and>
         scan_files U (collect_source_files code_root) = Inr (modules, gs, fs) \<and>
         main U code_root doc_root =
           Inr \<lparr>modules_cov = compute_coverage U modules doc_text,
                globals_cov = compute_coverage U gs doc_text,
                functions_cov = compute_coverage U fs doc_text,
                coverage_pct = overall_pct (compute_coverage U modules doc_text)
                   (compute_coverage U gs doc_text) (compute_coverage U fs doc_text)\<rparr>))"
proof (intro conjI allI impI)
  show "\<forall>(path, node) \<in> set (collect_source_files code_root).
      \<exists>content. node = File content \<and> read_text Ignore node = Inr (source_text node)"
    using collected_files read_text_source_text by fastforce
next
  show "read_text Ignore (File bs) = Inr (source_text (File bs))"
    by (rule read_text_source_text)
next
  fix t assume "read_text Strict (File bs) = Inr t"
  then show "source_text (File bs) = t"
    by (auto simp: source_text_def read_text_def split: sum.splits dest: utf8_strict_ignore)
next
  fix a b rest n ta tr
  assume "bs = a @ b # rest \<and> utf8_decode Strict a = Inr ta \<and>
      decode_step b rest = (None, n) \<and> utf8_decode Ignore (drop n rest) = Inr tr"
  then have "bs = a @ b # rest" and "utf8_decode Ignore (a @ b # rest) = Inr (ta @ tr)"
    using utf8_ignore_drops by auto
  then show "source_text (File bs) = universal_newlines (ta @ tr)"
    by (simp add: source_text_def read_text_def)
next
  fix doc_text assume d: "load_docs doc_root = Inr doc_text"
  obtain modules gs fs where
    n: "decoded_names U (collect_source_files code_root) = (modules, gs, fs)"
    by (cases "decoded_names U (collect_source_files code_root)")
  have "\<forall>(p, n) \<in> set (collect_source_files code_root). \<exists>bs. n = File bs"
    using collected_files by fastforce
  from scan_files_decoded [OF this, of U]
  have s: "scan_files U (collect_source_files code_root) = Inr (modules, gs, fs)"
    using n by simp
  from n s main_report [OF d s]
  show "\<exists>modules gs fs.
         decoded_names U (collect_source_files code_root) = (modules, gs, fs) \<and>
         scan_files U (collect_source_files code_root) = Inr (modules, gs, fs) \<and>
         main U code_root doc_root =
           Inr \<lparr>modules_cov = compute_coverage U modules doc_text,
                globals_cov = compute_coverage U gs doc_text,
                functions_cov = compute_coverage U fs doc_text,
                coverage_pct = overall_pct (compute_coverage U modules doc_text)
                   (compute_coverage U gs doc_text) (compute_coverage U fs doc_text)\<rparr>"
    by blast
qed

lemma faulty_source_symbols:
  "extract_symbols no_wide (str ''const x'') = ({str ''x''}, {})"
  by (simp add: extract_symbols_def patterns_def group1_set_def Let_def text_eval
        finditer_def ident_group_def no_wide_def global_pattern_def function_decl_pattern_def
        function_expr_pattern_def async_pattern_def arrow_pattern_def method_pattern_def)

lemma faulty_source_files:
  "collect_source_files (Some (Dir [(str ''a.js'', File (str ''con'' @ 255 # str ''st x''))]))
     = [([str ''a.js''], File (str ''con'' @ 255 # str ''st x''))]"
  by (simp add: collect_source_files_def path_suffix_def extensions_def str_def)

lemma faulty_source_decoding:
  "utf8_decode Strict (str ''con'') = Inr (str ''con'')"
  "decode_step 255 (str ''st x'') = (None, 0)"
  "utf8_decode Ignore (drop 0 (str ''st x'')) = Inr (str ''st x'')"
  by (simp_all add: decode_step_def str_def)

theorem source_decode_faults_dropped_witness:
  "set (collect_source_files
          (Some (Dir [(str ''a.js'', File (str ''con'' @ 255 # str ''st x''))])))
     = {([str ''a.js''], File (str ''con'' @ 255 # str ''st x''))} \<and>
   read_text Ignore (File (str ''con'' @ 255 # str ''st x'')) = Inr (str ''const x'') \<and>
   read_text Strict (File (str ''const x'')) = Inr (str ''const x'') \<and>
   source_text (File (str ''const x'')) = str ''const x'' \<and>
   utf8_decode Strict (str ''con'') = Inr (str ''con'') \<and>
   decode_step 255 (str ''st x'') = (None, 0) \<and>
   utf8_decode Ignore (drop 0 (str ''st x'')) = Inr (str ''st x'') \<and>
   source_text (File (str ''con'' @ 255 # str ''st x'')) = str ''const x'' \<and>
   load_docs None = Inr [] \<and>
   scan_files no_wide (collect_source_files
       (Some (Dir [(str ''a.js'', File (str ''con'' @ 255 # str ''st x''))])))
     = Inr ([str ''a.js''], [str ''a.js:x''], []) \<and>
   main no_wide (Some (Dir [(str ''a.js'', File (str ''con'' @ 255 # str ''st x''))])) None
     = Inr \<lparr>modules_cov = (0, 1), globals_cov = (0, 1), functions_cov = (0, 0),
            coverage_pct = 0\<rparr>"
proof -
  let ?B = "str ''con'' @ 255 # str ''st x''"
  let ?T = "Some (Dir [(str ''a.js'', File ?B)])"
  note t = source_decode_faults_dropped [of ?T ?B None no_wide]
  note u = source_decode_faults_dropped [of None "str ''const x''" None no_wide]
  have d: "load_docs None = Inr []" by (simp add: load_docs_def)
  have nl: "universal_newlines (str ''con'' @ str ''st x'') = str ''const x''"
    by (simp add: str_def)
  have v: "read_text Strict (File (str ''const x'')) = Inr (str ''const x'')"
    by (simp add: read_text_def decode_step_def str_def)
  from u v have w: "source_text (File (str ''const x'')) = str ''const x''" by blast
  from t have drops: "\<And>a b rest n ta tr. ?B = a @ b # rest \<Longrightarrow>
      utf8_decode Strict a = Inr ta \<Longrightarrow> decode_step b rest = (None, n) \<Longrightarrow>
      utf8_decode Ignore (drop n rest) = Inr tr \<Longrightarrow>
      source_text (File ?B) = universal_newlines (ta @ tr)"
    by blast
  have "?B = str ''con'' @ 255 # str ''st x''" by simp
  from drops [OF this faulty_source_decoding]
  have "source_text (File ?B) = universal_newlines (str ''con'' @ str ''st x'')" .
  with nl have st: "source_text (File ?B) = str ''const x''" by simp
  from t have rd: "read_text Ignore (File ?B) = Inr (source_text (File ?B))" by blast
  have q: "qualify (str ''a.js'') {str ''x''} = [str ''a.js:x'']"
      "qualify (str ''a.js'') {} = []"
    by (simp_all add: qualify_def str_def)
  have names: "decoded_names no_wide (collect_source_files ?T)
      = ([str ''a.js''], [str ''a.js:x''], [])"
    unfolding faulty_source_files
    by (simp add: decoded_names_def st faulty_source_symbols q)
  have cov: "compute_coverage no_wide [str ''a.js''] [] = (0, 1)"
      "compute_coverage no_wide [str ''a.js:x''] [] = (0, 1)"
      "compute_coverage no_wide [] [] = (0, 0)"
    by (simp_all add: compute_coverage_def is_documented_def)
  from t d names have
    "scan_files no_wide (collect_source_files ?T) = Inr ([str ''a.js''], [str ''a.js:x''], []) \<and>
     main no_wide ?T None =
       Inr \<lparr>modules_cov = compute_coverage no_wide [str ''a.js''] [],
            globals_cov = compute_coverage no_wide [str ''a.js:x''] [],
            functions_cov = compute_coverage no_wide [] [],
            coverage_pct = overall_pct (compute_coverage no_wide [str ''a.js''] [])
               (compute_coverage no_wide [str ''a.js:x''] []) (compute_coverage no_wide [] [])\<rparr>"
    by auto
  then have m: "scan_files no_wide (collect_source_files ?T)
        = Inr ([str ''a.js''], [str ''a.js:x''], [])"
      "main no_wide ?T None
        = Inr \<lparr>modules_cov = (0, 1), globals_cov = (0, 1), functions_cov = (0, 0),
               coverage_pct = 0\<rparr>"
    by (simp_all add: cov overall_pct_def)
  have c: "set (collect_source_files ?T) = {([str ''a.js''], File ?B)}"
    by (simp add: faulty_source_files)
  from c rd st v w faulty_source_decoding d m show ?thesis by simp
qed

text \<open>
  The claim as stated fails twice: the bytes \<open>c\<close>, \<open>0xFF\<close> of a source file are read
  as the text \<open>c\<close>, with no replacement character, and a markdown file holding the
  byte \<open>0xFF\<close> makes \<open>load_docs\<close> raise \<open>UnicodeDecodeError\<close>.
\<close>

theorem decode_fault_counterexample:
  "read_text Ignore (File [99, 255]) = Inr [99] \<and>
   load_docs (Some (Dir [(str ''a.md'', File [255])])) = Inl UnicodeDecodeError"
  by (simp add: read_text_def decode_step_def load_docs_def is_md_name_def str_def)

section \<open>Symbol extraction on the scenario text\<close>

lemmas find_eval = text_eval finditer_def ident_group_def

lemma scenario_matches:
  "finditer U global_pattern (str ''const topLevel = 1\<newline>let another = 2\<newline>var legacy\<newline>function declared() {}\<newline>const arrow = () => {}'')
     = [Some (str ''topLevel''), Some (str ''another''), Some (str ''legacy''), Some (str ''arrow'')]"
  "finditer U function_decl_pattern (str ''const topLevel = 1\<newline>let another = 2\<newline>var legacy\<newline>function declared() {}\<newline>const arrow = () => {}'')
     = [Some (str ''declared'')]"
  "finditer U function_expr_pattern (str ''const topLevel = 1\<newline>let another = 2\<newline>var legacy\<newline>function declared() {}\<newline>const arrow = () => {}'')
     = []"
  "finditer U async_pattern (str ''const topLevel = 1\<newline>let another = 2\<newline>var legacy\<newline>function declared() {}\<newline>const arrow = () => {}'')
     = []"
  "finditer U arrow_pattern (str ''const topLevel = 1\<newline>let another = 2\<newline>var legacy\<newline>function declared() {}\<newline>const arrow = () => {}'')
     = [Some (str ''arrow'')]"
  "finditer U method_pattern (str ''const topLevel = 1\<newline>let another = 2\<newline>var legacy\<newline>function declared() {}\<newline>const arrow = () => {}'')
     = []"
  by (simp_all add: find_eval global_pattern_def function_decl_pattern_def
        function_expr_pattern_def async_pattern_def arrow_pattern_def method_pattern_def)

text \<open>
  Claim C3, as the code has it. On the scenario text the globals are \<open>topLevel\<close>,
  \<open>another\<close>, \<open>legacy\<close> and also \<open>arrow\<close>, whose declaration
  \<open>const arrow = () => {}\<close> starts a line; the functions are \<open>declared\<close> and
  \<open>arrow\<close>.
\<close>

theorem extract_symbols_scenario:
  "extract_symbols U (str ''const topLevel = 1\<newline>let another = 2\<newline>var legacy\<newline>function declared() {}\<newline>const arrow = () => {}'')
     = ({str ''topLevel'', str ''another'', str ''legacy'', str ''arrow''},
        {str ''declared'', str ''arrow''})"
  by (auto simp: extract_symbols_def patterns_def group1_set_def scenario_matches Let_def)

text \<open>The globals of the scenario text are not the three names alone.\<close>

theorem extract_symbols_scenario_counterexample:
  "fst (extract_symbols no_wide (str ''const topLevel = 1\<newline>let another = 2\<newline>var legacy\<newline>function declared() {}\<newline>const arrow = () => {}''))
     \<noteq> {str ''topLevel'', str ''another'', str ''legacy''}"
proof -
  have "str ''arrow'' \<in> fst (extract_symbols no_wide (str ''const topLevel = 1\<newline>let another = 2\<newline>var legacy\<newline>function declared() {}\<newline>const arrow = () => {}''))"
    by (simp add: extract_symbols_def group1_set_def scenario_matches(1) Let_def)
  moreover have "str ''arrow'' \<notin> {str ''topLevel'', str ''another'', str ''legacy''}"
    by (simp add: str_def)
  ultimately show ?thesis by metis
qed

section \<open>Whole-word search\<close>

lemma lit_from_eq:
  "lit_from l p s =
     (if take (length l) s = l then [(prev_char p l, drop (length l) s, None)] else [])"
proof (induction l p s rule: lit_from.induct)
  case (1 p s)
  then show ?case by (simp add: prev_char_def)
next
  case (2 c cs p)
  then show ?case by simp
next
  case (3 c cs p x xs)
  then show ?case by (auto simp: prev_char_def)
qed

lemma search_from_iff:
  "search_from U r p s \<noteq> None \<longleftrightarrow>
     (\<exists>pre post. s = pre @ post \<and> rmatch U r (prev_char p pre) post \<noteq> [])"
proof (induction s arbitrary: p)
  case Nil
  then show ?case by (auto simp: prev_char_def split: list.splits)
next
  case (Cons x xs)
  show ?case
  proof (cases "rmatch U r p (x # xs)")
    case Nil
    have "(\<exists>pre post. x # xs = pre @ post \<and> rmatch U r (prev_char p pre) post \<noteq> []) \<longleftrightarrow>
          (\<exists>pre post. xs = pre @ post \<and> rmatch U r (prev_char (Some x) pre) post \<noteq> [])"
      (is "?L \<longleftrightarrow> ?R")
    proof
      assume ?L
      then obtain pre post where e: "x # xs = pre @ post" "rmatch U r (prev_char p pre) post \<noteq> []"
        by blast
      with Nil have "pre \<noteq> []" by (auto simp: prev_char_def)
      then obtain pre' where p': "pre = x # pre'" using e(1) by (cases pre) auto
      then have "prev_char p pre = prev_char (Some x) pre'" by (simp add: prev_char_def)
      with e p' show ?R by auto
    next
      assume ?R
      then obtain pre post where e: "xs = pre @ post" "rmatch U r (prev_char (Some x) pre) post \<noteq> []"
        by blast
      have "prev_char p (x # pre) = prev_char (Some x) pre" by (simp add: prev_char_def)
      with e have "x # xs = (x # pre) @ post \<and> rmatch U r (prev_char p (x # pre)) post \<noteq> []" by simp
      then show ?L by blast
    qed
    with Nil Cons.IH [of "Some x"] show ?thesis by simp
  next
    case (Cons m ms)
    then have "x # xs = [] @ (x # xs) \<and> rmatch U r (prev_char p []) (x # xs) \<noteq> []"
      by (simp add: prev_char_def)
    then have "\<exists>pre post. x # xs = pre @ post \<and> rmatch U r (prev_char p pre) post \<noteq> []" by blast
    with Cons show ?thesis by simp
  qed
qed

lemma word_rmatch:
  "rmatch U (Seq Wb (Seq (Lit name) Wb)) p s \<noteq> [] \<longleftrightarrow>
     word_before U p \<noteq> word_after U s \<and> take (length name) s = name \<and>
     word_before U (prev_char p name) \<noteq> word_after U (drop (length name) s)"
  by (auto simp: lit_from_eq)

lemma word_before_prev: "word_before U (prev_char None pre) \<longleftrightarrow> pre \<noteq> [] \<and> is_word U (last pre)"
  by (simp add: word_before_def prev_char_def)

lemma word_after_iff: "word_after U s \<longleftrightarrow> s \<noteq> [] \<and> is_word U (hd s)"
  by (cases s) (simp_all add: word_after_def)

lemma prev_char_app: "prev_char (prev_char p pre) name = prev_char p (pre @ name)"
  by (simp add: prev_char_def)

lemma take_eq_iff: "take (length name) s = name \<longleftrightarrow> (\<exists>post. s = name @ post)"
  by (metis append_eq_conv_conj)

lemma word_class_sample:
  "is_documented U (str ''foo'') (322 # str ''foo'') \<longleftrightarrow> \<not> U 322"
  "\<not> is_documented U (str ''foo'') (233 # str ''foo'')"
  "\<not> is_documented U (str ''foo'') (str ''foo_bar'')"
  "is_documented U (str ''foo'') (str ''a foo-bar'')"
  "is_documented U (str ''a.b'') (str ''x a.b y'')"
  "\<not> is_documented U (str ''a.b'') (str ''x aXb y'')"
  "\<not> is_documented U (str ''Foo'') (str ''a foo'')"
  by (simp_all add: doc_eval)

text \<open>
  Claim C2. \<open>is_documented name corpus\<close> holds exactly when the corpus is not empty and
  contains the characters of \<open>name\<close>, compared as they are (so with their case, and
  with no character read as pattern syntax), with a word boundary on each side; for the
  empty corpus it is false. The word characters are those of \<open>\w\<close>: after the letter
  U+0142 the name \<open>foo\<close> is found exactly when the Unicode table does not mark that
  letter, and it is not found after the Latin-1 letter U+00E9 nor before an underscore;
  a dot in the name matches a dot only, and case counts.
\<close>

theorem is_documented_whole_word:
  "(is_documented U name corpus \<longleftrightarrow> corpus \<noteq> [] \<and> whole_word_occurrence U name corpus) \<and>
   \<not> is_documented U name [] \<and>
   (is_documented U (str ''foo'') (322 # str ''foo'') \<longleftrightarrow> \<not> U 322) \<and>
   \<not> is_documented U (str ''foo'') (233 # str ''foo'') \<and>
   \<not> is_documented U (str ''foo'') (str ''foo_bar'') \<and>
   is_documented U (str ''foo'') (str ''a foo-bar'') \<and>
   is_documented U (str ''a.b'') (str ''x a.b y'') \<and>
   \<not> is_documented U (str ''a.b'') (str ''x aXb y'') \<and>
   \<not> is_documented U (str ''Foo'') (str ''a foo'')"
proof -
  have "re_search U (Seq Wb (Seq (re_escape name) Wb)) corpus \<noteq> None \<longleftrightarrow>
        whole_word_occurrence U name corpus"
  proof
    assume "re_search U (Seq Wb (Seq (re_escape name) Wb)) corpus \<noteq> None"
    then obtain pre post where e: "corpus = pre @ post"
      "rmatch U (Seq Wb (Seq (Lit name) Wb)) (prev_char None pre) post \<noteq> []"
      unfolding re_search_def re_escape_def search_from_iff by blast
    from e(2) have b1: "word_before U (prev_char None pre) \<noteq> word_after U post"
      and t: "take (length name) post = name"
      and b2: "word_before U (prev_char None (pre @ name)) \<noteq> word_after U (drop (length name) post)"
      unfolding word_rmatch prev_char_app by auto
    from t obtain post' where p: "post = name @ post'" using take_eq_iff by blast
    from b1 b2 p have "word_boundary U pre (name @ post') \<and> word_boundary U (pre @ name) post'"
      unfolding word_boundary_def word_before_prev word_after_iff by simp
    with e(1) p show "whole_word_occurrence U name corpus"
      unfolding whole_word_occurrence_def by blast
  next
    assume "whole_word_occurrence U name corpus"
    then obtain pre post where e: "corpus = pre @ name @ post"
      "word_boundary U pre (name @ post)" "word_boundary U (pre @ name) post"
      unfolding whole_word_occurrence_def by blast
    have "rmatch U (Seq Wb (Seq (Lit name) Wb)) (prev_char None pre) (name @ post) \<noteq> []"
      unfolding word_rmatch prev_char_app using e(2,3)
      unfolding word_boundary_def word_before_prev word_after_iff by simp
    with e(1) show "re_search U (Seq Wb (Seq (re_escape name) Wb)) corpus \<noteq> None"
      unfolding re_search_def re_escape_def search_from_iff by blast
  qed
  then have a: "is_documented U name corpus \<longleftrightarrow>
      corpus \<noteq> [] \<and> whole_word_occurrence U name corpus"
    by (simp add: is_documented_def)
  have b: "\<not> is_documented U name []" by (simp add: is_documented_def)
  from a b word_class_sample [of U] show ?thesis by blast
qed

theorem is_documented_whole_word_witness:
  "str ''a foo'' \<noteq> [] \<and> whole_word_occurrence no_wide (str ''foo'') (str ''a foo'') \<and>
   is_documented no_wide (str ''foo'') (str ''a foo'')"
proof -
  have "str ''a foo'' = str ''a '' @ str ''foo'' @ [] \<and>
        word_boundary no_wide (str ''a '') (str ''foo'' @ []) \<and>
        word_boundary no_wide (str ''a '' @ str ''foo'') []"
    by (simp add: word_boundary_def text_eval)
  then have w: "whole_word_occurrence no_wide (str ''foo'') (str ''a foo'')"
    unfolding whole_word_occurrence_def by blast
  have n: "str ''a foo'' \<noteq> []" by (simp add: str_def)
  from is_documented_whole_word [of no_wide "str ''foo''" "str ''a foo''"] w n show ?thesis by blast
qed

section \<open>The match of the globals pattern\<close>

lemma prev_char_Cons: "prev_char (Some x) w = prev_char p (x # w)"
  by (simp add: prev_char_def)

lemma star_from_hd:
  "\<exists>ms. star_from U c p s =
     (prev_char p (takeWhile (in_class U c) s), dropWhile (in_class U c) s, None) # ms"
proof (induction s arbitrary: p)
  case Nil
  then show ?case by (simp add: prev_char_def)
next
  case (Cons x xs)
  show ?case
  proof (cases "in_class U c x")
    case True
    from Cons [of "Some x"] obtain ms where
      "star_from U c (Some x) xs =
         (prev_char (Some x) (takeWhile (in_class U c) xs), dropWhile (in_class U c) xs, None) # ms"
      by blast
    with True show ?thesis by (simp add: prev_char_Cons [of x _ p])
  next
    case False
    then show ?thesis by (simp add: prev_char_def)
  qed
qed

lemma in_class_fun: "in_class U CWord = (is_word U)" "in_class U CSpace = is_space"
  by (rule ext, simp)+

lemma space_not_ident_start: "is_space x \<Longrightarrow> \<not> is_ident_start x"
  by (auto simp: is_space_def is_ident_start_def)

lemma ident_start_word: "is_ident_start x \<Longrightarrow> is_word U x"
  by (auto simp: is_word_def is_ident_start_def)

lemma ident_group_Nil: "rmatch U ident_group p [] = []"
  by (simp add: ident_group_def)

lemma ident_group_no: "\<not> is_ident_start x \<Longrightarrow> rmatch U ident_group p (x # xs) = []"
  by (simp add: ident_group_def)

lemma ident_group_hd:
  assumes "is_ident_start x"
  shows "\<exists>q ms. rmatch U ident_group p (x # xs) =
           (q, dropWhile (is_word U) xs, Some (x # takeWhile (is_word U) xs)) # ms"
proof -
  from star_from_hd [of U CWord "Some x" xs] obtain ms where
    "star_from U CWord (Some x) xs =
       (prev_char (Some x) (takeWhile (is_word U) xs), dropWhile (is_word U) xs, None) # ms"
    by (auto simp: in_class_fun)
  moreover have "take (Suc (length xs) - length (dropWhile (is_word U) xs)) (x # xs)
      = x # takeWhile (is_word U) xs"
  proof -
    have "length xs = length (takeWhile (is_word U) xs) + length (dropWhile (is_word U) xs)"
      by (metis length_append takeWhile_dropWhile_id)
    then have "Suc (length xs) - length (dropWhile (is_word U) xs)
        = Suc (length (takeWhile (is_word U) xs))" by simp
    then show ?thesis by (simp add: takeWhile_eq_take [symmetric])
  qed
  ultimately show ?thesis using assms
    by (simp add: ident_group_def)
qed

lemma opt_case_id: "(case g of None \<Rightarrow> None | Some t \<Rightarrow> Some t) = g"
  by (cases g) simp_all

lemma star_space_ident:
  "concat (map (\<lambda>(p', s', g).
      map (\<lambda>(p'', s'', g'). (p'', s'', case g' of None \<Rightarrow> g | Some t \<Rightarrow> Some t))
        (rmatch U ident_group p' s')) (star_from U CSpace p s))
   = rmatch U ident_group (prev_char p (takeWhile is_space s)) (dropWhile is_space s)"
proof (induction s arbitrary: p)
  case Nil
  then show ?case by (simp add: ident_group_Nil)
next
  case (Cons x xs)
  show ?case
  proof (cases "is_space x")
    case True
    then have "rmatch U ident_group p (x # xs) = []"
      by (simp add: ident_group_no space_not_ident_start)
    with True Cons [of "Some x"] show ?thesis
      by (simp add: prev_char_Cons [of x _ p])
  next
    case False
    then show ?thesis by (simp add: prev_char_def opt_case_id)
  qed
qed

lemma space_ident:
  "rmatch U (Seq (Plus CSpace) ident_group) p s =
     (case s of [] \<Rightarrow> []
      | x # xs \<Rightarrow> if is_space x
                  then rmatch U ident_group (prev_char (Some x) (takeWhile is_space xs))
                         (dropWhile is_space xs)
                  else [])"
  by (cases s) (simp_all add: star_space_ident)


lemma map_id3:
  "map (\<lambda>(p'', s'', g'). (p'', s'', case g' of None \<Rightarrow> None | Some t \<Rightarrow> Some t)) xs = xs"
  by (induction xs) (auto simp: opt_case_id)

lemma seq_single: "rmatch U a p s = [(p', s', None)] \<Longrightarrow> rmatch U (Seq a b) p s = rmatch U b p' s'"
  by (simp add: map_id3)

lemma seq_nil: "rmatch U a p s = [] \<Longrightarrow> rmatch U (Seq a b) p s = []"
  by simp

lemma kw_match_some:
  "kw \<in> decl_keywords \<Longrightarrow>
   rmatch U (Alt (Lit (str ''const'')) (Alt (Lit (str ''let'')) (Lit (str ''var'')))) p (kw @ t)
     = [(Some (last kw), t, None)]"
  by (auto simp: decl_keywords_def str_def)

lemma lit_from_prefix: "m \<in> set (lit_from l p s) \<Longrightarrow> \<exists>t. s = l @ t"
  by (auto simp: lit_from_eq split: if_splits) (metis append_take_drop_id)

lemma kw_match_only:
  assumes "m \<in> set (rmatch U (Alt (Lit (str ''const'')) (Alt (Lit (str ''let'')) (Lit (str ''var'')))) p s)"
  shows "\<exists>kw \<in> decl_keywords. \<exists>t. s = kw @ t"
  using assms by (auto simp: decl_keywords_def dest!: lit_from_prefix)

lemma take_drop_while_append:
  "list_all P xs \<Longrightarrow> ys = [] \<or> \<not> P (hd ys) \<Longrightarrow>
   takeWhile P (xs @ ys) = xs \<and> dropWhile P (xs @ ys) = ys"
  by (induction xs) (auto simp: takeWhile_eq_Nil_iff dropWhile_eq_self_iff)

lemma global_match_sound:
  assumes "rmatch U global_pattern p s = (q, s', g) # ms"
  shows "(p = None \<or> p = Some 10) \<and>
         (\<exists>kw ws name. kw \<in> decl_keywords \<and> ws \<noteq> [] \<and> list_all is_space ws \<and>
            s = kw @ ws @ name @ s' \<and> is_word_token U name \<and> \<not> word_after U s' \<and> g = Some name)"
proof -
  let ?KW = "Alt (Lit (str ''const'')) (Alt (Lit (str ''let'')) (Lit (str ''var'')))"
  let ?Y = "Seq (Plus CSpace) ident_group"
  have ls: "p = None \<or> p = Some 10"
    using assms by (auto simp: global_pattern_def split: if_splits)
  then have "rmatch U Bol p s = [(p, s, None)]" by auto
  then have 1: "rmatch U global_pattern p s = rmatch U (Seq ?KW ?Y) p s"
    unfolding global_pattern_def by (rule seq_single)
  have "rmatch U ?KW p s \<noteq> []"
    using assms 1 seq_nil [of U ?KW p s ?Y] by (metis list.distinct(1))
  then obtain m where "m \<in> set (rmatch U ?KW p s)"
    by (metis list.set_intros(1) neq_Nil_conv)
  from kw_match_only [OF this] obtain kw t where kw: "kw \<in> decl_keywords" "s = kw @ t" by blast
  then have "rmatch U ?KW p s = [(Some (last kw), t, None)]" using kw_match_some by blast
  then have "rmatch U (Seq ?KW ?Y) p s = rmatch U ?Y (Some (last kw)) t" by (rule seq_single)
  with 1 assms have 2: "rmatch U ?Y (Some (last kw)) t = (q, s', g) # ms" by metis
  from 2 [unfolded space_ident] obtain x xs where t: "t = x # xs" "is_space x"
    and 3: "rmatch U ident_group (prev_char (Some x) (takeWhile is_space xs)) (dropWhile is_space xs)
              = (q, s', g) # ms"
    by (auto split: list.splits if_splits)
  obtain y ys where d: "dropWhile is_space xs = y # ys" "is_ident_start y"
  proof (cases "dropWhile is_space xs")
    case Nil
    with 3 show ?thesis by (simp add: ident_group_Nil)
  next
    case (Cons y ys)
    with 3 have "is_ident_start y" using ident_group_no by (metis list.distinct(1))
    with Cons that show ?thesis by blast
  qed
  from ident_group_hd [OF d(2), of U "prev_char (Some x) (takeWhile is_space xs)" ys] 3 d(1)
  have r: "s' = dropWhile (is_word U) ys" "g = Some (y # takeWhile (is_word U) ys)" by auto
  let ?ws = "x # takeWhile is_space xs" and ?name = "y # takeWhile (is_word U) ys"
  have "xs = takeWhile is_space xs @ y # ys" using d(1) by (metis takeWhile_dropWhile_id)
  moreover have "ys = takeWhile (is_word U) ys @ s'" using r(1) by simp
  ultimately have "s = kw @ ?ws @ ?name @ s'" using kw(2) t(1) by simp
  moreover have "list_all is_space ?ws"
    using t(2) by (auto simp: list_all_iff dest: set_takeWhileD)
  moreover have "is_word_token U ?name"
    using d(2) by (auto simp: is_word_token_def list_all_iff dest: set_takeWhileD)
  moreover have "\<not> word_after U s'"
    unfolding r(1) word_after_iff by (metis hd_dropWhile)
  ultimately show ?thesis using ls kw(1) r(2) by blast
qed

lemma global_match_complete:
  assumes "p = None \<or> p = Some 10" "kw \<in> decl_keywords" "ws \<noteq> []" "list_all is_space ws"
    "is_word_token U name" "\<not> word_after U rest"
  shows "\<exists>q ms. rmatch U global_pattern p (kw @ ws @ name @ rest) = (q, rest, Some name) # ms"
proof -
  let ?KW = "Alt (Lit (str ''const'')) (Alt (Lit (str ''let'')) (Lit (str ''var'')))"
  let ?Y = "Seq (Plus CSpace) ident_group"
  let ?s = "kw @ ws @ name @ rest"
  from assms(1) have "rmatch U Bol p ?s = [(p, ?s, None)]" by auto
  then have 1: "rmatch U global_pattern p ?s = rmatch U (Seq ?KW ?Y) p ?s"
    unfolding global_pattern_def by (rule seq_single)
  have "rmatch U ?KW p ?s = [(Some (last kw), ws @ name @ rest, None)]"
    using assms(2) by (rule kw_match_some)
  then have 2: "rmatch U (Seq ?KW ?Y) p ?s = rmatch U ?Y (Some (last kw)) (ws @ name @ rest)"
    by (rule seq_single)
  from assms(3) obtain x ws' where ws: "ws = x # ws'" by (cases ws) auto
  from assms(5) obtain y ys where name: "name = y # ys" "is_ident_start y" "list_all (is_word U) ys"
    by (cases name) (auto simp: is_word_token_def)
  have sp: "takeWhile is_space (ws' @ name @ rest) = ws' \<and>
            dropWhile is_space (ws' @ name @ rest) = name @ rest"
    using assms(4) ws name(1,2) by (intro take_drop_while_append) (auto simp: space_not_ident_start)
  have wd: "takeWhile (is_word U) (ys @ rest) = ys \<and> dropWhile (is_word U) (ys @ rest) = rest"
    using name(3) assms(6) by (intro take_drop_while_append) (auto simp: word_after_iff)
  have "rmatch U ?Y (Some (last kw)) (ws @ name @ rest)
      = rmatch U ident_group (prev_char (Some x) ws') (y # ys @ rest)"
    unfolding space_ident using assms(4) ws sp name(1) by simp
  moreover from ident_group_hd [OF name(2), of U "prev_char (Some x) ws'" "ys @ rest"] wd
  obtain q ms where "rmatch U ident_group (prev_char (Some x) ws') (y # ys @ rest)
      = (q, rest, Some name) # ms" using name(1) by auto
  ultimately show ?thesis using 1 2 by metis
qed

section \<open>The matches that finditer yields\<close>

lemma ex5I: "P a b c d e \<Longrightarrow> \<exists>a b c d e. P a b c d e"
  by blast

lemma finditer_sound:
  "g \<in> set (finditer_from U r k p s) \<Longrightarrow>
   \<exists>pre post q s' ms. s = pre @ post \<and> rmatch U r (prev_char p pre) post = (q, s', g) # ms"
proof (induction s arbitrary: k p)
  case Nil
  then have "g \<in> set (case rmatch U r p [] of [] \<Rightarrow> [] | (_, _, g) # _ \<Rightarrow> [g])"
    by (simp split: if_splits)
  then obtain q s' ms where "rmatch U r p [] = (q, s', g) # ms"
    by (cases "rmatch U r p []") auto
  then have "[] = [] @ [] \<and> rmatch U r (prev_char p []) [] = (q, s', g) # ms"
    by (simp add: prev_char_def)
  then show ?case by (rule ex5I)
next
  case (Cons x xs)
  have shift: "\<exists>pre post q s' ms. x # xs = pre @ post \<and>
                 rmatch U r (prev_char p pre) post = (q, s', g) # ms"
    if "g \<in> set (finditer_from U r k' (Some x) xs)" for k'
  proof -
    from Cons.IH [OF that] obtain pre post q s' ms where
      "xs = pre @ post \<and> rmatch U r (prev_char (Some x) pre) post = (q, s', g) # ms"
      by (elim exE)
    then have "x # xs = (x # pre) @ post \<and>
        rmatch U r (prev_char p (x # pre)) post = (q, s', g) # ms"
      using prev_char_Cons [of x pre p] by simp
    then show ?thesis by (rule ex5I)
  qed
  show ?case
  proof (cases "0 < k")
    case True
    with Cons.prems have "g \<in> set (finditer_from U r (k - 1) (Some x) xs)" by simp
    then show ?thesis by (rule shift)
  next
    case False
    show ?thesis
    proof (cases "rmatch U r p (x # xs)")
      case Nil
      with False Cons.prems have "g \<in> set (finditer_from U r 0 (Some x) xs)" by simp
      then show ?thesis by (rule shift)
    next
      case (Cons m ms)
      obtain q s' g' where m: "m = (q, s', g')" by (cases m)
      from False Cons m Cons.prems
      have "g = g' \<or> g \<in> set (finditer_from U r (length xs - length s') (Some x) xs)"
        by simp
      then show ?thesis
      proof
        assume "g = g'"
        with Cons m have "x # xs = [] @ (x # xs) \<and>
            rmatch U r (prev_char p []) (x # xs) = (q, s', g) # ms"
          by (simp add: prev_char_def)
        then show ?thesis by (rule ex5I)
      next
        assume "g \<in> set (finditer_from U r (length xs - length s') (Some x) xs)"
        then show ?thesis by (rule shift)
      qed
    qed
  qed
qed

text \<open>After a match the scan goes on where the match ended.\<close>

lemma finditer_skip:
  "finditer_from U r (length u) p (u @ s) = finditer_from U r 0 (prev_char p u) s"
proof (induction u arbitrary: p)
  case Nil
  show ?case by (simp add: prev_char_def)
next
  case (Cons x u)
  have "finditer_from U r (length (x # u)) p ((x # u) @ s)
      = finditer_from U r (length u) (Some x) (u @ s)" by simp
  also have "\<dots> = finditer_from U r 0 (prev_char (Some x) u) s" by (rule Cons)
  also have "\<dots> = finditer_from U r 0 (prev_char p (x # u)) s"
    using prev_char_Cons [of x u p] by simp
  finally show ?case .
qed

lemma finditer_match:
  assumes "rmatch U r p (m @ s') = (q, s', g) # ms" and "m \<noteq> []"
  shows "finditer_from U r 0 p (m @ s') = g # finditer_from U r 0 (prev_char p m) s'"
proof -
  from assms(2) obtain x m' where m: "m = x # m'" by (cases m) auto
  from assms(1) have "finditer_from U r 0 p (x # m' @ s')
      = g # finditer_from U r (length m') (Some x) (m' @ s')"
    unfolding m by simp
  also have "finditer_from U r (length m') (Some x) (m' @ s')
      = finditer_from U r 0 (prev_char (Some x) m') s'" by (rule finditer_skip)
  also have "prev_char (Some x) m' = prev_char p (x # m')" by (rule prev_char_Cons)
  finally show ?thesis unfolding m by simp
qed

text \<open>
  The scan comes to the position after \<open>pre\<close> when no match that starts before it
  reaches over it.
\<close>

lemma finditer_reach:
  assumes "k \<le> length pre"
    and "\<forall>pre1 post1 q1 s1 g1 ms1.
           pre @ post = pre1 @ post1 \<and> length pre1 < length pre \<and>
           rmatch U r (prev_char p pre1) post1 = (q1, s1, g1) # ms1 \<longrightarrow>
           length pre1 + (length post1 - length s1) \<le> length pre"
  shows "\<exists>gs. finditer_from U r k p (pre @ post)
           = gs @ finditer_from U r 0 (prev_char p pre) post"
  using assms
proof (induction pre arbitrary: k p)
  case Nil
  then have "finditer_from U r k p ([] @ post) = [] @ finditer_from U r 0 (prev_char p []) post"
    by (simp add: prev_char_def)
  then show ?case by (rule exI)
next
  case (Cons x pre)
  have H: "\<forall>pre1 post1 q1 s1 g1 ms1.
           pre @ post = pre1 @ post1 \<and> length pre1 < length pre \<and>
           rmatch U r (prev_char (Some x) pre1) post1 = (q1, s1, g1) # ms1 \<longrightarrow>
           length pre1 + (length post1 - length s1) \<le> length pre"
  proof (intro allI impI)
    fix pre1 post1 q1 s1 g1 ms1
    assume a: "pre @ post = pre1 @ post1 \<and> length pre1 < length pre \<and>
           rmatch U r (prev_char (Some x) pre1) post1 = (q1, s1, g1) # ms1"
    then have "(x # pre) @ post = (x # pre1) @ post1 \<and>
        length (x # pre1) < length (x # pre) \<and>
        rmatch U r (prev_char p (x # pre1)) post1 = (q1, s1, g1) # ms1"
      using prev_char_Cons [of x pre1 p] by simp
    then have "length (x # pre1) + (length post1 - length s1) \<le> length (x # pre)"
      by (rule Cons.prems(2) [rule_format])
    then show "length pre1 + (length post1 - length s1) \<le> length pre" by simp
  qed
  have step: "\<exists>gs. finditer_from U r k' (Some x) (pre @ post)
                = gs @ finditer_from U r 0 (prev_char p (x # pre)) post"
    if "k' \<le> length pre" for k'
    using Cons.IH [OF that H] prev_char_Cons [of x pre p] by simp
  show ?case
  proof (cases "0 < k")
    case True
    with Cons.prems(1) step [of "k - 1"] show ?thesis by simp
  next
    case False
    show ?thesis
    proof (cases "rmatch U r p (x # pre @ post)")
      case Nil
      with False step [of 0] show ?thesis by simp
    next
      case (Cons m1 ms1)
      obtain q1 s1 g1 where m1: "m1 = (q1, s1, g1)" by (cases m1)
      have "(x # pre) @ post = [] @ (x # pre @ post) \<and>
          length ([]::nat list) < length (x # pre) \<and>
          rmatch U r (prev_char p []) (x # pre @ post) = (q1, s1, g1) # ms1"
        using Cons m1 by (simp add: prev_char_def)
      then have "length ([]::nat list) + (length (x # pre @ post) - length s1)
          \<le> length (x # pre)"
        by (rule Cons.prems(2) [rule_format])
      then have "length (pre @ post) - length s1 \<le> length pre" by simp
      from step [OF this] obtain gs where
        "finditer_from U r (length (pre @ post) - length s1) (Some x) (pre @ post)
           = gs @ finditer_from U r 0 (prev_char p (x # pre)) post" by blast
      with False Cons m1 have "finditer_from U r k p ((x # pre) @ post)
          = (g1 # gs) @ finditer_from U r 0 (prev_char p (x # pre)) post" by simp
      then show ?thesis by (rule exI)
    qed
  qed
qed

section \<open>Line-start declarations\<close>

lemma kw_chars: "kw \<in> decl_keywords \<Longrightarrow> 10 \<notin> set kw \<and> kw \<noteq> [] \<and> \<not> is_space (hd kw)"
  by (auto simp: decl_keywords_def str_def is_space_def)

lemma kw_token: "kw \<in> decl_keywords \<Longrightarrow> is_word_token U kw"
  by (auto simp: decl_keywords_def str_def is_word_token_def is_ident_start_def is_word_def)

lemma newline_not_word: "\<not> is_word U 10"
  by (simp add: is_word_def)

lemma space_not_word: "is_space c \<Longrightarrow> \<not> is_word U c"
  by (auto simp: is_space_def is_word_def)

lemma ident_char_word: "is_ident_char c \<Longrightarrow> is_word U c"
  by (auto simp: is_ident_char_def is_ident_start_def is_word_def)

lemma identifier_token: "is_identifier name \<Longrightarrow> is_word_token U name"
  by (auto simp: is_identifier_def is_word_token_def list_all_iff ident_char_word)

lemma token_all_word: "is_word_token U name \<Longrightarrow> c \<in> set name \<Longrightarrow> is_word U c"
  by (cases name) (auto simp: is_word_token_def list_all_iff ident_start_word)

lemma line_start_prev:
  "(prev_char None pre = None \<or> prev_char None pre = Some 10) \<longleftrightarrow> line_start pre"
  by (auto simp: prev_char_def line_start_def)

lemma split_longer:
  assumes "pre @ post = pre1 @ post1" "length pre1 < length pre"
  obtains u where "pre = pre1 @ u" "u @ post = post1" "u \<noteq> []"
proof -
  from assms(1) obtain us where
    "pre = pre1 @ us \<and> us @ post = post1 \<or> pre @ us = pre1 \<and> post = us @ post1"
    unfolding append_eq_append_conv2 by blast
  with assms(2) have "pre = pre1 @ us \<and> us @ post = post1 \<and> us \<noteq> []" by auto
  with that show ?thesis by blast
qed

text \<open>
  A match that starts before the start of a line and reaches over it ends with that
  line start inside its whitespace.
\<close>

lemma global_no_overlap:
  assumes ls: "line_start pre" and nf: "\<not> follows_keyword pre"
    and eq: "pre @ post = pre1 @ post1" and lt: "length pre1 < length pre"
    and m: "rmatch U global_pattern (prev_char None pre1) post1 = (q1, s1, g1) # ms1"
  shows "length pre1 + (length post1 - length s1) \<le> length pre"
proof -
  from global_match_sound [OF m] obtain kw ws name where
    l1: "line_start pre1" and kw: "kw \<in> decl_keywords" and ws: "ws \<noteq> []" "list_all is_space ws"
    and p1: "post1 = kw @ ws @ name @ s1" and idn: "is_word_token U name"
    unfolding line_start_prev by blast
  from split_longer [OF eq lt] obtain u where u: "pre = pre1 @ u" "u @ post = post1" "u \<noteq> []"
    by blast
  from ls u(1,3) have lu: "last u = 10" by (auto simp: line_start_def)
  from u(2) p1 have "u @ post = kw @ (ws @ name @ s1)" by simp
  then obtain v where "u = kw @ v \<and> v @ post = ws @ name @ s1 \<or>
                       u @ v = kw \<and> post = v @ ws @ name @ s1"
    unfolding append_eq_append_conv2 by blast
  then show ?thesis
  proof
    assume "u @ v = kw \<and> post = v @ ws @ name @ s1"
    then have "last u \<in> set kw" using u(3) by (metis Un_iff last_in_set set_append)
    with lu kw_chars [OF kw] show ?thesis by simp
  next
    assume a: "u = kw @ v \<and> v @ post = ws @ name @ s1"
    have vn: "v \<noteq> []"
    proof
      assume "v = []"
      with a have "last u \<in> set kw" using kw_chars [OF kw] by simp
      with lu kw_chars [OF kw] show False by simp
    qed
    from a have "v @ post = ws @ (name @ s1)" by simp
    then obtain w where "v = ws @ w \<and> w @ post = name @ s1 \<or>
                         v @ w = ws \<and> post = w @ name @ s1"
      unfolding append_eq_append_conv2 by blast
    then show ?thesis
    proof
      assume b: "v @ w = ws \<and> post = w @ name @ s1"
      then have "list_all is_space v" using ws(2) by auto
      moreover from a u(1) have "pre = pre1 @ kw @ v" by simp
      ultimately have "follows_keyword pre"
        using l1 kw vn unfolding follows_keyword_def by blast
      with nf show ?thesis by simp
    next
      assume b: "v = ws @ w \<and> w @ post = name @ s1"
      then obtain z where "w = name @ z \<and> z @ post = s1 \<or> w @ z = name \<and> post = z @ s1"
        unfolding append_eq_append_conv2 by blast
      then show ?thesis
      proof
        assume "w = name @ z \<and> z @ post = s1"
        with a b u(1) p1 show ?thesis by simp
      next
        assume c: "w @ z = name \<and> post = z @ s1"
        show ?thesis
        proof (cases "w = []")
          case True
          with a b u(1) have "pre = pre1 @ kw @ ws" by simp
          with l1 kw ws have "follows_keyword pre" unfolding follows_keyword_def by blast
          with nf show ?thesis by simp
        next
          case False
          with a b have "last u = last w" by simp
          moreover from False c have "last w \<in> set name"
            by (metis Un_iff last_in_set set_append)
          ultimately have "is_word U 10" using lu token_all_word [OF idn] by metis
          with newline_not_word show ?thesis by simp
        qed
      qed
    qed
  qed
qed

lemma globals_mem:
  "name \<in> fst (extract_symbols U text) \<longleftrightarrow>
   Some name \<in> set (finditer U global_pattern text)"
  by (simp add: extract_symbols_def Let_def group1_set_def Option.in_these_eq)

lemma globals_sound:
  assumes "name \<in> fst (extract_symbols U text)"
  shows "\<exists>pre post rest. text = pre @ post \<and> declaration_at U pre post name rest"
proof -
  from assms have "Some name \<in> set (finditer_from U global_pattern 0 None text)"
    by (simp add: globals_mem finditer_def)
  from finditer_sound [OF this] obtain pre post q s' ms where
    t: "text = pre @ post \<and>
        rmatch U global_pattern (prev_char None pre) post = (q, s', Some name) # ms"
    by (elim exE)
  then have m: "rmatch U global_pattern (prev_char None pre) post = (q, s', Some name) # ms"
    by simp
  from global_match_sound [OF m] have "declaration_at U pre post name s'"
    unfolding line_start_prev declaration_at_def by auto
  with t show ?thesis by blast
qed

lemma global_needs_line_start:
  "\<not> line_start pre \<Longrightarrow> rmatch U global_pattern (prev_char None pre) post = []"
  by (auto simp: global_pattern_def line_start_def prev_char_def)

lemma global_space_nomatch:
  assumes "is_space x"
  shows "rmatch U global_pattern p (x # s) = []"
proof (cases "rmatch U global_pattern p (x # s)")
  case Nil
  then show ?thesis .
next
  case (Cons m ms)
  obtain q s' g where "m = (q, s', g)" by (cases m)
  with Cons have "rmatch U global_pattern p (x # s) = (q, s', g) # ms" by simp
  from global_match_sound [OF this] obtain kw ws name where
    kw: "kw \<in> decl_keywords" and e: "x # s = kw @ ws @ name @ s'" by blast
  from kw_chars [OF kw] e have "hd kw = x" by (cases kw) auto
  with kw_chars [OF kw] assms show ?thesis by simp
qed

lemma scan_skips_spaces:
  "list_all is_space ws \<Longrightarrow>
   finditer_from U global_pattern 0 p (ws @ post)
     = finditer_from U global_pattern 0 (prev_char p ws) post"
proof (induction ws arbitrary: p)
  case Nil
  show ?case by (simp add: prev_char_def)
next
  case (Cons x ws)
  then have x: "is_space x" and w: "list_all is_space ws" by simp_all
  have "finditer_from U global_pattern 0 p ((x # ws) @ post)
      = finditer_from U global_pattern 0 (Some x) (ws @ post)"
    using global_space_nomatch [OF x, of U p "ws @ post"] by simp
  also have "\<dots> = finditer_from U global_pattern 0 (prev_char (Some x) ws) post"
    by (rule Cons.IH [OF w])
  also have "prev_char (Some x) ws = prev_char p (x # ws)" by (rule prev_char_Cons)
  finally show ?case .
qed

text \<open>
  A declaration at a position that the scan comes to is matched there, and the scan
  goes on after its token.
\<close>

lemma scan_declaration:
  assumes r: "scan_reaches U global_pattern pre (kw @ ws @ name @ rest)"
    and ls: "line_start pre" and kw: "kw \<in> decl_keywords"
    and ws: "ws \<noteq> []" "list_all is_space ws"
    and idn: "is_word_token U name" and nw: "\<not> word_after U rest"
  shows "\<exists>gs. finditer U global_pattern (pre @ kw @ ws @ name @ rest)
           = gs @ Some name #
               finditer_from U global_pattern 0 (prev_char None (pre @ kw @ ws @ name)) rest"
proof -
  let ?m = "kw @ ws @ name"
  from r obtain gs where gs: "finditer U global_pattern (pre @ kw @ ws @ name @ rest)
      = gs @ finditer_from U global_pattern 0 (prev_char None pre) (kw @ ws @ name @ rest)"
    unfolding scan_reaches_def by blast
  from ls have "prev_char None pre = None \<or> prev_char None pre = Some 10"
    by (simp add: line_start_prev)
  from global_match_complete [OF this kw ws idn nw] obtain q ms where
    "rmatch U global_pattern (prev_char None pre) (kw @ ws @ name @ rest)
       = (q, rest, Some name) # ms" by blast
  then have m: "rmatch U global_pattern (prev_char None pre) (?m @ rest)
       = (q, rest, Some name) # ms" by simp
  have "?m \<noteq> []" using ws(1) by simp
  from finditer_match [OF m this]
  have "finditer_from U global_pattern 0 (prev_char None pre) (kw @ ws @ name @ rest)
      = Some name # finditer_from U global_pattern 0 (prev_char None (pre @ ?m)) rest"
    by (simp add: prev_char_app)
  with gs have "finditer U global_pattern (pre @ kw @ ws @ name @ rest)
      = gs @ Some name #
          finditer_from U global_pattern 0 (prev_char None (pre @ kw @ ws @ name)) rest"
    by simp
  then show ?thesis by (rule exI)
qed

text \<open>
  After an even number of keywords in a row the scan comes to the position that follows
  them. After an odd number of them, the last keyword has begun a match: the token that
  follows is captured as its name, whatever it is, and the scan goes on after that token.
\<close>

lemma keyword_run_scan:
  assumes "keyword_run pre n"
  shows "(even n \<and> (n = 0 \<longrightarrow> line_start pre) \<longrightarrow>
            (\<forall>post. scan_reaches U global_pattern pre post)) \<and>
         (odd n \<longrightarrow>
            (\<forall>name rest. is_word_token U name \<and> \<not> word_after U rest \<longrightarrow>
               (\<exists>gs. finditer U global_pattern (pre @ name @ rest)
                  = gs @ Some name #
                      finditer_from U global_pattern 0 (prev_char None (pre @ name)) rest)))"
  using assms
proof (induction rule: keyword_run.induct)
  case (none pre)
  have "scan_reaches U global_pattern pre post" if ls: "line_start pre" for post
  proof -
    have "\<forall>pre1 post1 q1 s1 g1 ms1.
           pre @ post = pre1 @ post1 \<and> length pre1 < length pre \<and>
           rmatch U global_pattern (prev_char None pre1) post1 = (q1, s1, g1) # ms1 \<longrightarrow>
           length pre1 + (length post1 - length s1) \<le> length pre"
      using global_no_overlap [OF ls none] by blast
    from finditer_reach [OF _ this, of 0]
    show ?thesis by (simp add: scan_reaches_def finditer_def)
  qed
  then show ?case by simp
next
  case (more pre n kw ws)
  show ?case
  proof (cases "even n")
    case True
    with more.IH more.hyps(2) have r: "\<And>post. scan_reaches U global_pattern pre post"
      by blast
    have "\<exists>gs. finditer U global_pattern ((pre @ kw @ ws) @ name @ rest)
            = gs @ Some name #
                finditer_from U global_pattern 0 (prev_char None ((pre @ kw @ ws) @ name)) rest"
      if "is_word_token U name \<and> \<not> word_after U rest" for name rest
      using scan_declaration [OF r more.hyps(2,3,4,5), of name rest] that by simp
    with True show ?thesis by simp
  next
    case False
    have k: "is_word_token U kw" using more.hyps(3) by (rule kw_token)
    have "scan_reaches U global_pattern (pre @ kw @ ws) post" for post
    proof -
      from more.hyps(4,5) have "is_space (hd (ws @ post))" by (cases ws) auto
      then have "\<not> word_after U (ws @ post)"
        using more.hyps(4) by (auto simp: word_after_iff dest: space_not_word)
      with more.IH False k obtain gs where
        "finditer U global_pattern (pre @ kw @ ws @ post)
           = gs @ Some kw #
               finditer_from U global_pattern 0 (prev_char None (pre @ kw)) (ws @ post)"
        by blast
      also have "finditer_from U global_pattern 0 (prev_char None (pre @ kw)) (ws @ post)
          = finditer_from U global_pattern 0 (prev_char None ((pre @ kw) @ ws)) post"
        using scan_skips_spaces [OF more.hyps(5), of U "prev_char None (pre @ kw)" post]
        by (simp add: prev_char_app)
      finally have "finditer U global_pattern ((pre @ kw @ ws) @ post)
          = (gs @ [Some kw]) @
              finditer_from U global_pattern 0 (prev_char None (pre @ kw @ ws)) post"
        by simp
      then show ?thesis unfolding scan_reaches_def by (rule exI)
    qed
    with False show ?thesis by simp
  qed
qed

lemma keyword_run_total: "\<exists>n. keyword_run pre n"
proof (induction "length pre" arbitrary: pre rule: less_induct)
  case less
  show ?case
  proof (cases "follows_keyword pre")
    case False
    then have "keyword_run pre 0" by (rule keyword_run.none)
    then show ?thesis by (rule exI)
  next
    case True
    then obtain pre' kw ws where p: "pre = pre' @ kw @ ws" and l: "line_start pre'"
      and kw: "kw \<in> decl_keywords" and ws: "ws \<noteq> []" "list_all is_space ws"
      unfolding follows_keyword_def by blast
    from p ws(1) have "length pre' < length pre" by simp
    from less [OF this] obtain n where "keyword_run pre' n" by blast
    from keyword_run.more [OF this l kw ws] p have "keyword_run pre (Suc n)" by simp
    then show ?thesis by (rule exI)
  qed
qed

lemma globals_even:
  assumes d: "declaration_at U pre post name rest" and k: "keyword_run pre n" and e: "even n"
  shows "name \<in> fst (extract_symbols U (pre @ post))"
proof -
  from d obtain kw ws where ls: "line_start pre" and kw: "kw \<in> decl_keywords"
    and ws: "ws \<noteq> []" "list_all is_space ws" and p: "post = kw @ ws @ name @ rest"
    and idn: "is_word_token U name" and r: "\<not> word_after U rest"
    unfolding declaration_at_def by blast
  from keyword_run_scan [OF k, of U] e ls
  have "scan_reaches U global_pattern pre (kw @ ws @ name @ rest)" by blast
  from scan_declaration [OF this ls kw ws idn r] p
  have "Some name \<in> set (finditer U global_pattern (pre @ post))" by auto
  then show ?thesis by (simp add: globals_mem)
qed

lemma globals_odd:
  assumes d: "declaration_at U pre post name rest" and k: "keyword_run pre n" and o: "odd n"
  shows "\<exists>kw \<in> decl_keywords. \<exists>t gs. post = kw @ t \<and>
           finditer U global_pattern (pre @ post)
             = gs @ Some kw # finditer_from U global_pattern 0 (Some (last kw)) t \<and>
           kw \<in> fst (extract_symbols U (pre @ post))"
proof -
  from d obtain kw ws where kw: "kw \<in> decl_keywords"
    and ws: "ws \<noteq> []" "list_all is_space ws" and p: "post = kw @ ws @ name @ rest"
    unfolding declaration_at_def by blast
  let ?t = "ws @ name @ rest"
  from ws have "is_space (hd ?t)" by (cases ws) auto
  then have "\<not> word_after U ?t"
    using ws(1) by (auto simp: word_after_iff dest: space_not_word)
  with keyword_run_scan [OF k, of U] o kw_token [OF kw, of U] obtain gs where
    "finditer U global_pattern (pre @ kw @ ?t)
       = gs @ Some kw # finditer_from U global_pattern 0 (prev_char None (pre @ kw)) ?t"
    by blast
  moreover have "prev_char None (pre @ kw) = Some (last kw)"
    using kw_chars [OF kw] by (simp add: prev_char_def)
  ultimately have f: "finditer U global_pattern (pre @ post)
       = gs @ Some kw # finditer_from U global_pattern 0 (Some (last kw)) ?t"
    using p by simp
  then have "kw \<in> fst (extract_symbols U (pre @ post))" by (simp add: globals_mem)
  with f p kw show ?thesis by blast
qed

lemma decl_sample:
  "declaration_at no_wide (str ''const\<newline>let\<newline>'') (str ''var x'') (str ''x'') []"
  "declaration_at no_wide (str ''const\<newline>'') (str ''let x'') (str ''x'') []"
proof -
  have k: "str ''var'' \<in> decl_keywords" "str ''let'' \<in> decl_keywords"
    by (simp_all add: decl_keywords_def)
  have s: "str '' '' \<noteq> []" "list_all is_space (str '' '')"
    by (simp_all add: str_def is_space_def)
  have i: "is_word_token no_wide (str ''x'')" "\<not> word_after no_wide []"
    by (simp_all add: is_word_token_def text_eval)
  have e: "str ''var x'' = str ''var'' @ str '' '' @ str ''x'' @ []"
      "str ''let x'' = str ''let'' @ str '' '' @ str ''x'' @ []"
    by (simp_all add: str_def)
  have l: "line_start (str ''const\<newline>let\<newline>'')" "line_start (str ''const\<newline>'')"
    by (simp_all add: line_start_def str_def)
  show "declaration_at no_wide (str ''const\<newline>let\<newline>'') (str ''var x'') (str ''x'') []"
    unfolding declaration_at_def using k(1) s i e(1) l(1) by blast
  show "declaration_at no_wide (str ''const\<newline>'') (str ''let x'') (str ''x'') []"
    unfolding declaration_at_def using k(2) s i e(2) l(2) by blast
qed

lemma run_sample:
  "keyword_run (str ''const\<newline>'') 1"
  "keyword_run (str ''const\<newline>let\<newline>'') 2"
proof -
  have k: "str ''const'' \<in> decl_keywords" "str ''let'' \<in> decl_keywords"
    by (simp_all add: decl_keywords_def)
  have s: "str ''\<newline>'' \<noteq> []" "list_all is_space (str ''\<newline>'')"
    by (simp_all add: str_def is_space_def)
  have l: "line_start []" "line_start (str ''const\<newline>'')"
    by (simp_all add: line_start_def str_def)
  have "\<not> follows_keyword []" by (simp add: follows_keyword_def)
  then have "keyword_run [] 0" by (rule keyword_run.none)
  from keyword_run.more [OF this l(1) k(1) s]
  show 1: "keyword_run (str ''const\<newline>'') 1" by (simp add: str_def)
  from keyword_run.more [OF 1 l(2) k(2) s]
  show "keyword_run (str ''const\<newline>let\<newline>'') 2" by (simp add: str_def numeral_2_eq_2)
qed

text \<open>
  Claim C9, as the code has it. A name is among the globals only if the text has a
  line-start declaration of it: a position at the start of the text or after a newline,
  one of the keywords \<open>const\<close>, \<open>let\<close>, \<open>var\<close>, whitespace, and the name as the
  whole token that follows, an ASCII letter or underscore and then word characters as
  far as they go. Every identifier of the specification's alphabet is such a token.
  Every position follows some number of keywords in a row, each at the start of a line
  and followed by whitespace only. A line-start declaration after an even number of them
  contributes its name. After an odd number of them its keyword is captured as the name
  of the keyword before it, and the scan goes on after that keyword. No match starts at
  a position that is not the start of a line, so an indented declaration contributes
  nothing.
\<close>

theorem globals_rule:
  "(name \<in> fst (extract_symbols U source) \<longrightarrow>
      (\<exists>pre post rest. source = pre @ post \<and> declaration_at U pre post name rest)) \<and>
   (is_identifier ident \<longrightarrow> is_word_token U ident) \<and>
   (\<exists>n. keyword_run pre n) \<and>
   (declaration_at U pre post dname rest \<and> keyword_run pre n \<and> even n \<longrightarrow>
      dname \<in> fst (extract_symbols U (pre @ post))) \<and>
   (declaration_at U opre opost oname orest \<and> keyword_run opre m \<and> odd m \<longrightarrow>
      (\<exists>kw \<in> decl_keywords. \<exists>t gs. opost = kw @ t \<and>
         finditer U global_pattern (opre @ opost)
           = gs @ Some kw # finditer_from U global_pattern 0 (Some (last kw)) t \<and>
         kw \<in> fst (extract_symbols U (opre @ opost)))) \<and>
   (\<not> line_start indent \<longrightarrow> rmatch U global_pattern (prev_char None indent) line = [])"
proof (intro conjI impI)
  assume "name \<in> fst (extract_symbols U source)"
  then show "\<exists>pre post rest. source = pre @ post \<and> declaration_at U pre post name rest"
    by (rule globals_sound)
next
  assume "is_identifier ident"
  then show "is_word_token U ident" by (rule identifier_token)
next
  show "\<exists>n. keyword_run pre n" by (rule keyword_run_total)
next
  assume "declaration_at U pre post dname rest \<and> keyword_run pre n \<and> even n"
  then show "dname \<in> fst (extract_symbols U (pre @ post))"
    using globals_even by blast
next
  assume "declaration_at U opre opost oname orest \<and> keyword_run opre m \<and> odd m"
  then have d: "declaration_at U opre opost oname orest" and k: "keyword_run opre m"
    and o: "odd m" by simp_all
  from globals_odd [OF d k o]
  show "\<exists>kw \<in> decl_keywords. \<exists>t gs. opost = kw @ t \<and>
         finditer U global_pattern (opre @ opost)
           = gs @ Some kw # finditer_from U global_pattern 0 (Some (last kw)) t \<and>
         kw \<in> fst (extract_symbols U (opre @ opost))" .
next
  assume "\<not> line_start indent"
  then show "rmatch U global_pattern (prev_char None indent) line = []"
    by (rule global_needs_line_start)
qed

theorem globals_rule_witness:
  "str ''x'' \<in> fst (extract_symbols no_wide (str ''const\<newline>let\<newline>var x'')) \<and>
   (\<exists>pre post rest. str ''const\<newline>let\<newline>var x'' = pre @ post \<and>
      declaration_at no_wide pre post (str ''x'') rest) \<and>
   is_identifier (str ''x'') \<and> is_word_token no_wide (str ''x'') \<and>
   declaration_at no_wide (str ''const\<newline>let\<newline>'') (str ''var x'') (str ''x'') [] \<and>
   keyword_run (str ''const\<newline>let\<newline>'') 2 \<and> even (2::nat) \<and>
   declaration_at no_wide (str ''const\<newline>'') (str ''let x'') (str ''x'') [] \<and>
   keyword_run (str ''const\<newline>'') 1 \<and> odd (1::nat) \<and>
   str ''let'' \<in> fst (extract_symbols no_wide (str ''const\<newline>let x'')) \<and>
   \<not> line_start (str ''  '') \<and>
   rmatch no_wide global_pattern (prev_char None (str ''  '')) (str ''let y'') = []"
proof -
  note t = globals_rule [where U = no_wide and name = "str ''x''"
      and source = "str ''const\<newline>let\<newline>var x''" and ident = "str ''x''"
      and pre = "str ''const\<newline>let\<newline>''" and post = "str ''var x''"
      and dname = "str ''x''" and rest = "[]" and n = 2
      and opre = "str ''const\<newline>''" and opost = "str ''let x''"
      and oname = "str ''x''" and orest = "[]" and m = 1
      and indent = "str ''  ''" and line = "str ''let y''"]
  have i: "is_identifier (str ''x'')"
    by (simp add: is_identifier_def is_ident_start_def str_def)
  have n: "\<not> line_start (str ''  '')" by (simp add: line_start_def str_def)
  have e: "str ''const\<newline>let\<newline>'' @ str ''var x'' = str ''const\<newline>let\<newline>var x''"
      "str ''const\<newline>'' @ str ''let x'' = str ''const\<newline>let x''"
    by (simp_all add: str_def)
  note t4 = t [THEN conjunct2, THEN conjunct2, THEN conjunct2, THEN conjunct1]
  note t5 = t [THEN conjunct2, THEN conjunct2, THEN conjunct2, THEN conjunct2, THEN conjunct1]
  have p: "even (2::nat)" "odd (1::nat)" by simp_all
  from t4 decl_sample(1) run_sample(2) p(1)
  have "str ''x'' \<in> fst (extract_symbols no_wide
      (str ''const\<newline>let\<newline>'' @ str ''var x''))" by blast
  then have a: "str ''x'' \<in> fst (extract_symbols no_wide (str ''const\<newline>let\<newline>var x''))"
    by (simp only: e)
  with t have b: "\<exists>pre post rest. str ''const\<newline>let\<newline>var x'' = pre @ post \<and>
      declaration_at no_wide pre post (str ''x'') rest" by blast
  from t i have c: "is_word_token no_wide (str ''x'')" by blast
  from t5 decl_sample(2) run_sample(1) p(2)
  obtain kw t' where kw: "kw \<in> decl_keywords" "str ''let x'' = kw @ t'"
    and g: "kw \<in> fst (extract_symbols no_wide (str ''const\<newline>'' @ str ''let x''))"
    by blast
  from kw have "kw = str ''let''" by (auto simp: decl_keywords_def str_def)
  with g have d: "str ''let'' \<in> fst (extract_symbols no_wide (str ''const\<newline>let x''))"
    by (simp only: e)
  from t n have f: "rmatch no_wide global_pattern (prev_char None (str ''  '')) (str ''let y'') = []"
    by blast
  from a b c d f i n p decl_sample run_sample show ?thesis by blast
qed

text \<open>
  The claim as stated fails twice. On \<open>const\<close>, newline, \<open>let x\<close> the second line is
  a line-start declaration of \<open>x\<close>, and \<open>x\<close> is not among the globals (the only global
  is \<open>let\<close>). On \<open>const\<close>, a blank and the letter \<open>x\<close> with the fraction one half
  (U+00BD) after it, the captured name is the letter with the fraction, which is not an
  identifier of letters, digits and underscores.
\<close>

theorem globals_rule_counterexample:
  "declaration_at no_wide (str ''const\<newline>'') (str ''let x'') (str ''x'') [] \<and>
   str ''const\<newline>let x'' = str ''const\<newline>'' @ str ''let x'' \<and>
   str ''x'' \<notin> fst (extract_symbols no_wide (str ''const\<newline>let x'')) \<and>
   [120, 189] \<in> fst (extract_symbols no_wide (str ''const '' @ [120, 189])) \<and>
   \<not> is_identifier [120, 189]"
proof -
  have "finditer no_wide global_pattern (str ''const\<newline>let x'') = [Some (str ''let'')]"
    by (simp add: text_eval finditer_def ident_group_def global_pattern_def)
  then have "fst (extract_symbols no_wide (str ''const\<newline>let x'')) = {str ''let''}"
    by (simp add: extract_symbols_def Let_def group1_set_def)
  moreover have "str ''x'' \<noteq> str ''let''" by (simp add: str_def)
  moreover have "str ''const\<newline>let x'' = str ''const\<newline>'' @ str ''let x''"
    by (simp add: str_def)
  moreover have "finditer no_wide global_pattern (str ''const '' @ [120, 189])
      = [Some [120, 189]]"
    by (simp add: text_eval finditer_def ident_group_def global_pattern_def)
  then have "[120, 189] \<in> fst (extract_symbols no_wide (str ''const '' @ [120, 189]))"
    by (simp add: extract_symbols_def Let_def group1_set_def)
  moreover have "\<not> is_identifier [120, 189]"
    by (simp add: is_identifier_def is_ident_char_def is_ident_start_def)
  ultimately show ?thesis using decl_sample(2) by simp
qed

section \<open>Overlap of the two sets\<close>

lemma functions_sound:
  assumes "name \<in> snd (extract_symbols U text)"
  shows "\<exists>pre post. text = pre @ post \<and> function_like_at U pre post name"
proof -
  from assms obtain pattern where p: "pattern \<in> set patterns"
    and "Some name \<in> set (finditer_from U pattern 0 None text)"
    by (auto simp: extract_symbols_def Let_def group1_set_def finditer_def Option.in_these_eq)
  from finditer_sound [OF this(2)] obtain pre post q s' ms where
    "text = pre @ post \<and> rmatch U pattern (prev_char None pre) post = (q, s', Some name) # ms"
    by (elim exE)
  with p have "text = pre @ post \<and> function_like_at U pre post name"
    unfolding function_like_at_def by blast
  then show ?thesis by blast
qed

lemma captures_complete:
  "rmatch U r (prev_char p pre) post = (q, s', g) # ms \<Longrightarrow>
   g \<in> set (captures_from U r p (pre @ post))"
proof (induction pre arbitrary: p)
  case Nil
  then show ?case by (cases post) (simp_all add: prev_char_def)
next
  case (Cons x pre)
  from Cons.prems have "rmatch U r (prev_char (Some x) pre) post = (q, s', g) # ms"
    using prev_char_Cons [of x pre p] by simp
  from Cons.IH [OF this] show ?case by simp
qed

lemma declared_captured:
  assumes "declaration_at U pre post name rest"
  shows "Some name \<in> set (captures_from U global_pattern None (pre @ post))"
proof -
  from assms obtain kw ws where ls: "line_start pre" and kw: "kw \<in> decl_keywords"
    and ws: "ws \<noteq> []" "list_all is_space ws" and p: "post = kw @ ws @ name @ rest"
    and idn: "is_word_token U name" and r: "\<not> word_after U rest"
    unfolding declaration_at_def by blast
  from ls have "prev_char None pre = None \<or> prev_char None pre = Some 10"
    by (simp add: line_start_prev)
  from global_match_complete [OF this kw ws idn r] p obtain q ms where
    "rmatch U global_pattern (prev_char None pre) post = (q, rest, Some name) # ms" by blast
  then show ?thesis by (rule captures_complete)
qed

lemma function_like_captured:
  assumes "function_like_at U pre post name"
  shows "\<exists>pattern \<in> set patterns. Some name \<in> set (captures_from U pattern None (pre @ post))"
  using assms unfolding function_like_at_def by (blast intro: captures_complete)

lemma plain_sample_captures:
  "captures_from no_wide global_pattern None (str ''const x = 1\<newline>function f() {}'')
     = [Some (str ''x'')]"
  "captures_from no_wide function_decl_pattern None (str ''const x = 1\<newline>function f() {}'')
     = [Some (str ''f'')]"
  "captures_from no_wide function_expr_pattern None (str ''const x = 1\<newline>function f() {}'')
     = []"
  "captures_from no_wide async_pattern None (str ''const x = 1\<newline>function f() {}'') = []"
  "captures_from no_wide arrow_pattern None (str ''const x = 1\<newline>function f() {}'') = []"
  "captures_from no_wide method_pattern None (str ''const x = 1\<newline>function f() {}'') = []"
  by (simp_all add: text_eval ident_group_def global_pattern_def function_decl_pattern_def
        function_expr_pattern_def async_pattern_def arrow_pattern_def method_pattern_def)

lemma plain_sample_no_common:
  "\<not> ((\<exists>pre post rest. str ''const x = 1\<newline>function f() {}'' = pre @ post \<and>
          declaration_at no_wide pre post name rest) \<and>
       (\<exists>pre post. str ''const x = 1\<newline>function f() {}'' = pre @ post \<and>
          function_like_at no_wide pre post name))"
proof
  assume a: "(\<exists>pre post rest. str ''const x = 1\<newline>function f() {}'' = pre @ post \<and>
          declaration_at no_wide pre post name rest) \<and>
       (\<exists>pre post. str ''const x = 1\<newline>function f() {}'' = pre @ post \<and>
          function_like_at no_wide pre post name)"
  then obtain pre post rest where
    "str ''const x = 1\<newline>function f() {}'' = pre @ post"
    "declaration_at no_wide pre post name rest" by blast
  with declared_captured [of no_wide pre post name rest]
  have "Some name \<in> set (captures_from no_wide global_pattern None
      (str ''const x = 1\<newline>function f() {}''))" by simp
  then have x: "name = str ''x''" by (simp add: plain_sample_captures)
  from a obtain pre post where
    "str ''const x = 1\<newline>function f() {}'' = pre @ post"
    "function_like_at no_wide pre post name" by blast
  with function_like_captured [of no_wide pre post name]
  have "\<exists>pattern \<in> set patterns. Some name \<in> set (captures_from no_wide pattern None
      (str ''const x = 1\<newline>function f() {}''))" by simp
  then have "name = str ''f''" by (simp add: patterns_def plain_sample_captures)
  with x show False by (simp add: str_def)
qed

text \<open>
  Claim C4, as the code has it. The two sets are computed by independent rules and
  nothing removes from one set a name of the other. A name is in both only if the text
  has a line-start declaration of it and a position where one of the five function
  patterns matches and captures it; so the two sets are disjoint for every text in
  which no name has both.
\<close>

theorem extract_symbols_common_names:
  "(name \<in> fst (extract_symbols U text) \<inter> snd (extract_symbols U text) \<longrightarrow>
      (\<exists>pre post rest. text = pre @ post \<and> declaration_at U pre post name rest) \<and>
      (\<exists>pre post. text = pre @ post \<and> function_like_at U pre post name)) \<and>
   ((\<forall>name. \<not> ((\<exists>pre post rest. text = pre @ post \<and> declaration_at U pre post name rest) \<and>
                (\<exists>pre post. text = pre @ post \<and> function_like_at U pre post name))) \<longrightarrow>
      fst (extract_symbols U text) \<inter> snd (extract_symbols U text) = {})"
proof -
  have 1: "(\<exists>pre post rest. text = pre @ post \<and> declaration_at U pre post name rest) \<and>
      (\<exists>pre post. text = pre @ post \<and> function_like_at U pre post name)"
    if "name \<in> fst (extract_symbols U text) \<inter> snd (extract_symbols U text)" for name
    using that globals_sound [of name U "text"] functions_sound [of name U "text"] by simp
  then have "fst (extract_symbols U text) \<inter> snd (extract_symbols U text) = {}"
    if "\<forall>name. \<not> ((\<exists>pre post rest. text = pre @ post \<and> declaration_at U pre post name rest) \<and>
                (\<exists>pre post. text = pre @ post \<and> function_like_at U pre post name))"
    using that by blast
  with 1 show ?thesis by blast
qed

theorem extract_symbols_common_names_witness:
  "str ''arrow'' \<in>
     fst (extract_symbols no_wide (str ''const topLevel = 1\<newline>let another = 2\<newline>var legacy\<newline>function declared() {}\<newline>const arrow = () => {}'')) \<inter>
     snd (extract_symbols no_wide (str ''const topLevel = 1\<newline>let another = 2\<newline>var legacy\<newline>function declared() {}\<newline>const arrow = () => {}'')) \<and>
   (\<exists>pre post rest.
      str ''const topLevel = 1\<newline>let another = 2\<newline>var legacy\<newline>function declared() {}\<newline>const arrow = () => {}'' = pre @ post \<and>
      declaration_at no_wide pre post (str ''arrow'') rest) \<and>
   (\<exists>pre post.
      str ''const topLevel = 1\<newline>let another = 2\<newline>var legacy\<newline>function declared() {}\<newline>const arrow = () => {}'' = pre @ post \<and>
      function_like_at no_wide pre post (str ''arrow'')) \<and>
   (\<forall>name. \<not> ((\<exists>pre post rest. str ''const x = 1\<newline>function f() {}'' = pre @ post \<and>
                   declaration_at no_wide pre post name rest) \<and>
                (\<exists>pre post. str ''const x = 1\<newline>function f() {}'' = pre @ post \<and>
                   function_like_at no_wide pre post name))) \<and>
   fst (extract_symbols no_wide (str ''const x = 1\<newline>function f() {}'')) \<inter>
     snd (extract_symbols no_wide (str ''const x = 1\<newline>function f() {}'')) = {}"
proof -
  let ?S = "str ''const topLevel = 1\<newline>let another = 2\<newline>var legacy\<newline>function declared() {}\<newline>const arrow = () => {}''"
  let ?T = "str ''const x = 1\<newline>function f() {}''"
  have a: "str ''arrow'' \<in> fst (extract_symbols no_wide ?S) \<inter> snd (extract_symbols no_wide ?S)"
    by (simp add: extract_symbols_def patterns_def group1_set_def scenario_matches Let_def)
  from extract_symbols_common_names [of "str ''arrow''" no_wide ?S] a
  have b: "(\<exists>pre post rest. ?S = pre @ post \<and> declaration_at no_wide pre post (str ''arrow'') rest) \<and>
      (\<exists>pre post. ?S = pre @ post \<and> function_like_at no_wide pre post (str ''arrow''))"
    by blast
  have c: "\<forall>name. \<not> ((\<exists>pre post rest. ?T = pre @ post \<and>
                   declaration_at no_wide pre post name rest) \<and>
                (\<exists>pre post. ?T = pre @ post \<and> function_like_at no_wide pre post name))"
    using plain_sample_no_common by blast
  from extract_symbols_common_names [of _ no_wide ?T] c
  have d: "fst (extract_symbols no_wide ?T) \<inter> snd (extract_symbols no_wide ?T) = {}"
    by blast
  from a b c d show ?thesis by blast
qed

text \<open>On the scenario text the name \<open>arrow\<close> is in both sets.\<close>

theorem extract_symbols_disjoint_counterexample:
  "str ''arrow'' \<in>
     fst (extract_symbols no_wide (str ''const topLevel = 1\<newline>let another = 2\<newline>var legacy\<newline>function declared() {}\<newline>const arrow = () => {}'')) \<inter>
     snd (extract_symbols no_wide (str ''const topLevel = 1\<newline>let another = 2\<newline>var legacy\<newline>function declared() {}\<newline>const arrow = () => {}''))"
  by (simp add: extract_symbols_def patterns_def group1_set_def scenario_matches Let_def)

end
